theory Spec2Isabelle
  imports Complex_Main
begin

section \<open>The formula engine of the spreadsheet (formulas.ts)\<close>

text \<open>
  The engine turns the raw text of every cell into the string the grid shows. This theory
  embeds it function by function: the lexer \<open>tokenize\<close>, the recursive-descent
  \<open>Parser\<close>, the reference resolver (\<open>parseCellRef\<close>, \<open>expandRange\<close>), the
  dependency collector, the evaluator \<open>evaluateNode\<close> and the entry point
  \<open>calculateDisplayCells\<close> with its Kahn scheduling pass.

  Conventions of the embedding.
  \<^item> A string is the list of its code units; only code units below 256 occur.
  \<^item> A JavaScript \<open>Map\<close> is an association list in insertion order whose keys are
    distinct; a \<open>Set\<close> is a duplicate-free list in insertion order.
  \<^item> Row and column numbers are doubles, as in the source: integers, rounded where they
    exceed \<open>2^53\<close>, and \<open>Infinity\<close>.
  \<^item> The values of type \<open>number\<close> that formulas compute with are IEEE doubles in the
    source. Their primitives (parsing, printing, the four operations) belong to the
    language and not to the engine, so the engine is embedded over an arbitrary number
    type \<open>'n\<close> together with a record of these primitives. Every general theorem
    below holds for each such record, hence for the doubles of the source.
\<close>

subsection \<open>Numbers of the host language\<close>

record 'n NumberOps =
  parseFloat :: "string \<Rightarrow> 'n"        \<comment> \<open>\<open>Number.parseFloat\<close>\<close>
  isFinite :: "'n \<Rightarrow> bool"            \<comment> \<open>\<open>Number.isFinite\<close>\<close>
  numToString :: "'n \<Rightarrow> string"       \<comment> \<open>\<open>String(value)\<close>\<close>
  ofNat :: "nat \<Rightarrow> 'n"                \<comment> \<open>an integer literal or an array length\<close>
  isZero :: "'n \<Rightarrow> bool"              \<comment> \<open>\<open>value === 0\<close>\<close>
  numAdd :: "'n \<Rightarrow> 'n \<Rightarrow> 'n"
  numSub :: "'n \<Rightarrow> 'n \<Rightarrow> 'n"
  numMul :: "'n \<Rightarrow> 'n \<Rightarrow> 'n"
  numDiv :: "'n \<Rightarrow> 'n \<Rightarrow> 'n"
  numNeg :: "'n \<Rightarrow> 'n"
  mathMin :: "'n list \<Rightarrow> 'n"         \<comment> \<open>\<open>Math.min(...numbers)\<close>\<close>
  mathMax :: "'n list \<Rightarrow> 'n"         \<comment> \<open>\<open>Math.max(...numbers)\<close>\<close>

subsection \<open>Values, tokens and syntax trees\<close>

datatype 'n FormulaValue = Num 'n | Str string | Null

datatype TokenType =
  TNumber | TIdentifier | TCell | TOperator | TParen | TComma | TColon | TEof

record Token =
  ttype :: TokenType
  tvalue :: string

datatype 'n FormulaNode =
    Number 'n
  | Cell string
  | Binary string "'n FormulaNode" "'n FormulaNode"
  | Unary string "'n FormulaNode"
  | Function string "'n FormulaNode list"
  | RangeNode string string

text \<open>
  Rows and columns are JavaScript numbers, that is doubles. The resolver computes them
  from runs of letters and digits of any length, so that the values that occur are the
  integers a double holds and, when a run is long enough, \<open>Infinity\<close>.
\<close>

datatype JsInt = Finite int | Infinity | MinusInfinity

text \<open>
  Modelled from the spec: \<open>getCellKey\<close> lives in \<open>cellKey.ts\<close>, which is not part of
  the sources at hand. The spec describes a cell key as a unique identifier derived from
  a zero-indexed (row, column) pair, so a key is built from the two numbers and two keys
  are equal exactly when both numbers are.
\<close>

datatype CellKey = Key JsInt JsInt

definition getCellKey :: "JsInt \<Rightarrow> JsInt \<Rightarrow> CellKey" where
  "getCellKey row col = Key row col"

subsection \<open>Character classes and string helpers\<close>

definition isAlpha :: "char \<Rightarrow> bool" where
  "isAlpha c = (let n = (of_char c :: nat) in (65 \<le> n \<and> n \<le> 90) \<or> (97 \<le> n \<and> n \<le> 122))"

definition isDigit :: "char \<Rightarrow> bool" where
  "isDigit c = (let n = (of_char c :: nat) in 48 \<le> n \<and> n \<le> 57)"

text \<open>
  The white space and line terminators stripped by \<open>String.prototype.trim\<close>, among the
  code units below 256: tab, line feed, vertical tab, form feed, carriage return, space
  and no-break space.
\<close>

definition isTrimSpace :: "char \<Rightarrow> bool" where
  "isTrimSpace c = (let n = (of_char c :: nat) in (9 \<le> n \<and> n \<le> 13) \<or> n = 32 \<or> n = 160)"

definition trim :: "string \<Rightarrow> string" where
  "trim s = rev (dropWhile isTrimSpace (rev (dropWhile isTrimSpace s)))"

definition toUpperChar :: "char \<Rightarrow> char" where
  "toUpperChar c = (let n = (of_char c :: nat) in
     if 97 \<le> n \<and> n \<le> 122 then char_of (n - 32) else c)"

text \<open>
  \<open>toUpperCase\<close> is applied only to letter runs matched by \<open>[a-zA-Z]+\<close> (function
  names and column labels), where it changes exactly the lower-case ASCII letters.
\<close>

definition toUpperCase :: "string \<Rightarrow> string" where
  "toUpperCase s = map toUpperChar s"

text \<open>\<open>NUMBER_RE = /^-?\d+(\.\d+)?$/\<close>, as a test on the whole string.\<close>

definition NUMBER_RE :: "string \<Rightarrow> bool" where
  "NUMBER_RE s =
     (let body = (case s of [] \<Rightarrow> [] | c # r \<Rightarrow> if c = CHR ''-'' then r else s);
          ds = takeWhile isDigit body;
          rest = dropWhile isDigit body
      in ds \<noteq> [] \<and>
         (case rest of
            [] \<Rightarrow> True
          | d # fr \<Rightarrow> d = CHR ''.'' \<and> fr \<noteq> [] \<and> list_all isDigit fr))"

subsection \<open>Coercion and formatting\<close>

fun isNumericValue :: "'n NumberOps \<Rightarrow> 'n FormulaValue \<Rightarrow> bool" where
  "isNumericValue N (Num n) = isFinite N n"
| "isNumericValue N (Str s) = NUMBER_RE (trim s)"
| "isNumericValue N Null = False"

fun toNumber :: "'n NumberOps \<Rightarrow> 'n FormulaValue \<Rightarrow> 'n" where
  "toNumber N (Num n) = n"
| "toNumber N (Str s) =
     (let trimmed = trim s in
      if \<not> NUMBER_RE trimmed then ofNat N 0 else parseFloat N trimmed)"
| "toNumber N Null = ofNat N 0"

fun formatValue :: "'n NumberOps \<Rightarrow> 'n FormulaValue \<Rightarrow> string" where
  "formatValue N Null = ''''"
| "formatValue N (Num n) = (if isFinite N n then numToString N n else ''#ERROR'')"
| "formatValue N (Str s) = s"

subsection \<open>Lexer\<close>

definition tok :: "TokenType \<Rightarrow> string \<Rightarrow> Token" where
  "tok t v = \<lparr>ttype = t, tvalue = v\<rparr>"

text \<open>
  The loop of \<open>tokenize\<close> over the index \<open>i\<close> is a recursion over the rest of the
  input; the inner loops that gather a run of characters are \<open>takeWhile\<close> and
  \<open>dropWhile\<close>. The case order is the source's.
\<close>

definition isNumberChar :: "char \<Rightarrow> bool" where
  "isNumberChar x = (isDigit x \<or> x = CHR ''.'')"

function tokenizeFrom :: "string \<Rightarrow> Token list" where
  "tokenizeFrom [] = [tok TEof []]"
| "tokenizeFrom (c # cs) =
     (if c = CHR '' '' \<or> c = CHR 0x09 \<or> c = CHR 0x0A \<or> c = CHR 0x0D then tokenizeFrom cs
      else if c = CHR ''+'' \<or> c = CHR ''-'' \<or> c = CHR ''*'' \<or> c = CHR ''/'' then
        tok TOperator [c] # tokenizeFrom cs
      else if c = CHR ''('' \<or> c = CHR '')'' then tok TParen [c] # tokenizeFrom cs
      else if c = CHR '','' then tok TComma [c] # tokenizeFrom cs
      else if c = CHR '':'' then tok TColon [c] # tokenizeFrom cs
      else if isDigit c \<or> (c = CHR ''.'' \<and> (case cs of [] \<Rightarrow> False | d # _ \<Rightarrow> isDigit d)) then
        tok TNumber (c # takeWhile isNumberChar cs) # tokenizeFrom (dropWhile isNumberChar cs)
      else if isAlpha c then
        (if takeWhile isDigit (dropWhile isAlpha cs) \<noteq> []
         then tok TCell ((c # takeWhile isAlpha cs) @ takeWhile isDigit (dropWhile isAlpha cs))
         else tok TIdentifier (c # takeWhile isAlpha cs))
          # tokenizeFrom (dropWhile isDigit (dropWhile isAlpha cs))
      else tokenizeFrom cs)"
  by pat_completeness auto
termination
proof (relation "measure length")
  show "wf (measure length)" by simp
next
  fix c :: char and cs :: string
  show step: "(cs, c # cs) \<in> measure length" by simp
  show "(cs, c # cs) \<in> measure length" by (rule step)
  show "(cs, c # cs) \<in> measure length" by (rule step)
  show "(cs, c # cs) \<in> measure length" by (rule step)
  show "(cs, c # cs) \<in> measure length" by (rule step)
  show "(dropWhile isNumberChar cs, c # cs) \<in> measure length"
    by (simp add: less_Suc_eq_le length_dropWhile_le)
  show "(dropWhile isDigit (dropWhile isAlpha cs), c # cs) \<in> measure length"
    using le_trans [OF length_dropWhile_le length_dropWhile_le, of isDigit isAlpha cs]
    by (simp add: less_Suc_eq_le)
  show "(cs, c # cs) \<in> measure length" by (rule step)
qed

definition tokenize :: "string \<Rightarrow> Token list" where
  "tokenize input = tokenizeFrom input"


subsection \<open>Parser\<close>

text \<open>
  The class \<open>Parser\<close> holds the token array and an index into it. Its state is embedded
  as the list of the tokens from the index on: \<open>peek\<close> is the head, \<open>advance\<close> drops it
  unless it is the end-of-input token. Where the source reads \<open>previous()\<close> right after
  a successful match, the embedding reads the head of the list before the match. Every
  method returns its result together with the parser state it leaves, also when the
  result is \<open>null\<close>, because the source goes on using the parser after a failed
  sub-parse (the loops of \<open>parseExpression\<close> and \<open>parseTerm\<close> test
  \<open>!node || !right\<close> only after parsing the right operand).
\<close>

definition peek :: "Token list \<Rightarrow> Token" where
  "peek ts = (case ts of [] \<Rightarrow> tok TEof [] | t # _ \<Rightarrow> t)"

definition peekNext :: "Token list \<Rightarrow> Token" where
  "peekNext ts = (case ts of _ # t # _ \<Rightarrow> t | _ \<Rightarrow> peek ts)"

definition isAtEnd :: "Token list \<Rightarrow> bool" where
  "isAtEnd ts = (ttype (peek ts) = TEof)"

definition advance :: "Token list \<Rightarrow> Token list" where
  "advance ts = (if \<not> isAtEnd ts then tl ts else ts)"

definition check :: "TokenType \<Rightarrow> Token list \<Rightarrow> bool" where
  "check t ts = (ttype (peek ts) = t)"

definition checkParen :: "string \<Rightarrow> Token list \<Rightarrow> bool" where
  "checkParen v ts = (ttype (peek ts) = TParen \<and> tvalue (peek ts) = v)"

definition matchType :: "TokenType \<Rightarrow> Token list \<Rightarrow> Token list option" where
  "matchType t ts = (if check t ts then Some (advance ts) else None)"

definition matchOperator :: "string list \<Rightarrow> Token list \<Rightarrow> Token list option" where
  "matchOperator ops ts =
     (if ttype (peek ts) \<noteq> TOperator then None
      else if tvalue (peek ts) \<notin> set ops then None
      else Some (advance ts))"

definition matchParen :: "string \<Rightarrow> Token list \<Rightarrow> Token list option" where
  "matchParen v ts =
     (if ttype (peek ts) \<noteq> TParen then None
      else if tvalue (peek ts) \<noteq> v then None
      else Some (advance ts))"

function parseExpression :: "'n NumberOps \<Rightarrow> Token list \<Rightarrow> 'n FormulaNode option \<times> Token list"
  and parseExpressionLoop :: "'n NumberOps \<Rightarrow> 'n FormulaNode option \<Rightarrow> Token list \<Rightarrow> 'n FormulaNode option \<times> Token list"
  and parseTerm :: "'n NumberOps \<Rightarrow> Token list \<Rightarrow> 'n FormulaNode option \<times> Token list"
  and parseTermLoop :: "'n NumberOps \<Rightarrow> 'n FormulaNode option \<Rightarrow> Token list \<Rightarrow> 'n FormulaNode option \<times> Token list"
  and parseUnary :: "'n NumberOps \<Rightarrow> Token list \<Rightarrow> 'n FormulaNode option \<times> Token list"
  and parsePrimary :: "'n NumberOps \<Rightarrow> Token list \<Rightarrow> 'n FormulaNode option \<times> Token list"
  and parseArguments :: "'n NumberOps \<Rightarrow> 'n FormulaNode list \<Rightarrow> Token list \<Rightarrow> 'n FormulaNode list option \<times> Token list"
  and parseArgument :: "'n NumberOps \<Rightarrow> Token list \<Rightarrow> 'n FormulaNode option \<times> Token list"
where
  "parseExpression N ts =
     (case parseTerm N ts of (node, ts1) \<Rightarrow> parseExpressionLoop N node ts1)"
| "parseExpressionLoop N node ts =
     (case matchOperator [''+'', ''-''] ts of
        None \<Rightarrow> (node, ts)
      | Some ts1 \<Rightarrow>
          (case parseTerm N ts1 of (right, ts2) \<Rightarrow>
             (case node of
                None \<Rightarrow> (None, ts2)
              | Some l \<Rightarrow>
                  (case right of
                     None \<Rightarrow> (None, ts2)
                   | Some r \<Rightarrow> parseExpressionLoop N (Some (Binary (tvalue (peek ts)) l r)) ts2))))"
| "parseTerm N ts =
     (case parseUnary N ts of (node, ts1) \<Rightarrow> parseTermLoop N node ts1)"
| "parseTermLoop N node ts =
     (case matchOperator [''*'', ''/''] ts of
        None \<Rightarrow> (node, ts)
      | Some ts1 \<Rightarrow>
          (case parseUnary N ts1 of (right, ts2) \<Rightarrow>
             (case node of
                None \<Rightarrow> (None, ts2)
              | Some l \<Rightarrow>
                  (case right of
                     None \<Rightarrow> (None, ts2)
                   | Some r \<Rightarrow> parseTermLoop N (Some (Binary (tvalue (peek ts)) l r)) ts2))))"
| "parseUnary N ts =
     (case matchOperator [''+'', ''-''] ts of
        Some ts1 \<Rightarrow>
          (case parseUnary N ts1 of (operand, ts2) \<Rightarrow>
             (case operand of
                None \<Rightarrow> (None, ts2)
              | Some x \<Rightarrow> (Some (Unary (tvalue (peek ts)) x), ts2)))
      | None \<Rightarrow> parsePrimary N ts)"
| "parsePrimary N ts =
     (if check TNumber ts then (Some (Number (parseFloat N (tvalue (peek ts)))), advance ts)
      else if check TCell ts then (Some (Cell (tvalue (peek ts))), advance ts)
      else if check TIdentifier ts then
        (case matchParen ''('' (advance ts) of
           None \<Rightarrow> (None, advance ts)
         | Some ts2 \<Rightarrow>
             (case (if \<not> checkParen '')'' ts2 then parseArguments N [] ts2 else (Some [], ts2)) of
                (None, ts3) \<Rightarrow> (None, ts3)
              | (Some args, ts3) \<Rightarrow>
                  (case matchParen '')'' ts3 of
                     None \<Rightarrow> (None, ts3)
                   | Some ts4 \<Rightarrow> (Some (Function (tvalue (peek ts)) args), ts4))))
      else
        (case matchParen ''('' ts of
           Some ts1 \<Rightarrow>
             (case parseExpression N ts1 of
                (None, ts2) \<Rightarrow> (None, ts2)
              | (Some expr, ts2) \<Rightarrow>
                  (case matchParen '')'' ts2 of
                     None \<Rightarrow> (None, ts2)
                   | Some ts3 \<Rightarrow> (Some expr, ts3)))
         | None \<Rightarrow> (None, ts)))"
| "parseArguments N args ts =
     (case parseArgument N ts of
        (None, ts1) \<Rightarrow> (None, ts1)
      | (Some arg, ts1) \<Rightarrow>
          (case matchType TComma ts1 of
             Some ts2 \<Rightarrow> parseArguments N (args @ [arg]) ts2
           | None \<Rightarrow> (Some (args @ [arg]), ts1)))"
| "parseArgument N ts =
     (if ttype (peek ts) = TCell \<and> ttype (peekNext ts) = TColon then
        (case matchType TCell (advance (advance ts)) of
           None \<Rightarrow> (None, advance (advance ts))
         | Some ts3 \<Rightarrow> (Some (RangeNode (tvalue (peek ts)) (tvalue (peek (advance (advance ts))))), ts3))
      else parseExpression N ts)"
  by pat_completeness auto


lemma length_advance: "length (advance ts) \<le> length ts"
  by (simp add: advance_def)

lemma matchOperator_shorter: "matchOperator ops ts = Some ts' \<Longrightarrow> length ts' < length ts"
  by (cases ts) (auto simp: matchOperator_def advance_def isAtEnd_def peek_def tok_def split: if_splits)

lemma matchParen_shorter: "matchParen v ts = Some ts' \<Longrightarrow> length ts' < length ts"
  by (cases ts) (auto simp: matchParen_def advance_def isAtEnd_def peek_def tok_def split: if_splits)

lemma matchType_shorter: "matchType t ts = Some ts' \<Longrightarrow> t \<noteq> TEof \<Longrightarrow> length ts' < length ts"
  by (cases ts) (auto simp: matchType_def check_def advance_def isAtEnd_def peek_def tok_def split: if_splits)

lemma matchType_le: "matchType t ts = Some ts' \<Longrightarrow> length ts' \<le> length ts"
  by (auto simp: matchType_def length_advance split: if_splits)

abbreviation (input) "parser_dom \<equiv> parseExpression_parseExpressionLoop_parseTerm_parseTermLoop_parseUnary_parsePrimary_parseArguments_parseArgument_dom"

lemma parser_length_dom:
  "parser_dom (Inl (Inl (Inl (N, ts)))) \<Longrightarrow> length (snd (parseExpression N ts)) \<le> length ts"
  "parser_dom (Inl (Inl (Inr (N, node, ts)))) \<Longrightarrow> length (snd (parseExpressionLoop N node ts)) \<le> length ts"
  "parser_dom (Inl (Inr (Inl (N, ts)))) \<Longrightarrow> length (snd (parseTerm N ts)) \<le> length ts"
  "parser_dom (Inl (Inr (Inr (N, node, ts)))) \<Longrightarrow> length (snd (parseTermLoop N node ts)) \<le> length ts"
  "parser_dom (Inr (Inl (Inl (N, ts)))) \<Longrightarrow> length (snd (parseUnary N ts)) \<le> length ts"
  "parser_dom (Inr (Inl (Inr (N, ts)))) \<Longrightarrow> length (snd (parsePrimary N ts)) \<le> length ts"
  "parser_dom (Inr (Inr (Inl (N, args, ts)))) \<Longrightarrow> length (snd (parseArguments N args ts)) \<le> length ts"
  "parser_dom (Inr (Inr (Inr (N, ts)))) \<Longrightarrow> length (snd (parseArgument N ts)) \<le> length ts"
proof (induct rule: parseExpression_parseExpressionLoop_parseTerm_parseTermLoop_parseUnary_parsePrimary_parseArguments_parseArgument.pinduct)
  case (1 N ts)
  then show ?case
    by (cases "parseTerm N ts") (simp add: parseExpression.psimps)
next
  case (2 N node ts)
  show ?case
  proof (cases "matchOperator [''+'', ''-''] ts")
    case None
    with 2(1) show ?thesis by (simp add: parseExpressionLoop.psimps)
  next
    case (Some ts1)
    obtain right ts2 where r: "parseTerm N ts1 = (right, ts2)" by (cases "parseTerm N ts1")
    have a: "length ts1 < length ts" using Some by (rule matchOperator_shorter)
    have b: "length ts2 \<le> length ts1" using 2(2) [OF Some] r by simp
    show ?thesis
    proof (cases "node = None \<or> right = None")
      case True
      with 2(1) Some r a b show ?thesis
        by (auto simp: parseExpressionLoop.psimps split: option.splits)
    next
      case False
      then obtain l r' where lr: "node = Some l" "right = Some r'" by auto
      have "length (snd (parseExpressionLoop N (Some (Binary (tvalue (peek ts)) l r')) ts2)) \<le> length ts2"
        using 2(3) [OF Some r [symmetric] lr] .
      with 2(1) Some r a b lr show ?thesis
        by (simp add: parseExpressionLoop.psimps)
    qed
  qed
next
  case (3 N ts)
  then show ?case
    by (cases "parseUnary N ts") (simp add: parseTerm.psimps)
next
  case (4 N node ts)
  show ?case
  proof (cases "matchOperator [''*'', ''/''] ts")
    case None
    with 4(1) show ?thesis by (simp add: parseTermLoop.psimps)
  next
    case (Some ts1)
    obtain right ts2 where r: "parseUnary N ts1 = (right, ts2)" by (cases "parseUnary N ts1")
    have a: "length ts1 < length ts" using Some by (rule matchOperator_shorter)
    have b: "length ts2 \<le> length ts1" using 4(2) [OF Some] r by simp
    show ?thesis
    proof (cases "node = None \<or> right = None")
      case True
      with 4(1) Some r a b show ?thesis
        by (auto simp: parseTermLoop.psimps split: option.splits)
    next
      case False
      then obtain l r' where lr: "node = Some l" "right = Some r'" by auto
      have "length (snd (parseTermLoop N (Some (Binary (tvalue (peek ts)) l r')) ts2)) \<le> length ts2"
        using 4(3) [OF Some r [symmetric] lr] .
      with 4(1) Some r a b lr show ?thesis
        by (simp add: parseTermLoop.psimps)
    qed
  qed
next
  case (5 N ts)
  show ?case
  proof (cases "matchOperator [''+'', ''-''] ts")
    case None
    with 5(1) 5(2) show ?thesis by (simp add: parseUnary.psimps)
  next
    case (Some ts1)
    obtain operand ts2 where r: "parseUnary N ts1 = (operand, ts2)" by (cases "parseUnary N ts1")
    have a: "length ts1 < length ts" using Some by (rule matchOperator_shorter)
    have b: "length ts2 \<le> length ts1" using 5(3) [OF Some] r by simp
    from 5(1) Some r a b show ?thesis
      by (simp add: parseUnary.psimps split: option.splits)
  qed
next
  case (6 N ts)
  note adv = length_advance [of ts]
  show ?case
  proof (cases "check TNumber ts \<or> check TCell ts")
    case True
    with 6(1) adv show ?thesis by (auto simp: parsePrimary.psimps)
  next
    case nc: False
    show ?thesis
    proof (cases "check TIdentifier ts")
      case True
      show ?thesis
      proof (cases "matchParen ''('' (advance ts)")
        case None
        with 6(1) nc True adv show ?thesis by (simp add: parsePrimary.psimps)
      next
        case (Some ts2)
        have a: "length ts2 < length (advance ts)" using Some by (rule matchParen_shorter)
        obtain res ts3 where r: "(if \<not> checkParen '')'' ts2 then parseArguments N [] ts2 else (Some [], ts2)) = (res, ts3)"
          by (cases "(if \<not> checkParen '')'' ts2 then parseArguments N [] ts2 else (Some [], ts2))")
        have b: "length ts3 \<le> length ts2"
        proof (cases "checkParen '')'' ts2")
          case True
          with r show ?thesis by simp
        next
          case False
          with 6(2) [of ts2] nc True Some r show ?thesis by simp
        qed
        have c: "\<And>ts4. matchParen '')'' ts3 = Some ts4 \<Longrightarrow> length ts4 < length ts3"
          by (rule matchParen_shorter)
        from 6(1) nc True Some r a b adv show ?thesis
          by (auto simp: parsePrimary.psimps split: option.splits dest: c)
      qed
    next
      case ni: False
      show ?thesis
      proof (cases "matchParen ''('' ts")
        case None
        with 6(1) nc ni show ?thesis by (simp add: parsePrimary.psimps)
      next
        case (Some ts1)
        have a: "length ts1 < length ts" using Some by (rule matchParen_shorter)
        obtain res ts2 where r: "parseExpression N ts1 = (res, ts2)" by (cases "parseExpression N ts1")
        have b: "length ts2 \<le> length ts1" using 6(3) [of ts1] nc ni Some r by simp
        have c: "\<And>ts4. matchParen '')'' ts2 = Some ts4 \<Longrightarrow> length ts4 < length ts2"
          by (rule matchParen_shorter)
        from 6(1) nc ni Some r a b show ?thesis
          by (auto simp: parsePrimary.psimps split: option.splits dest: c)
      qed
    qed
  qed
next
  case (7 N args ts)
  obtain res ts1 where r: "parseArgument N ts = (res, ts1)" by (cases "parseArgument N ts")
  have b: "length ts1 \<le> length ts" using 7(2) r by simp
  show ?case
  proof (cases res)
    case None
    with 7(1) r b show ?thesis by (simp add: parseArguments.psimps)
  next
    case (Some arg)
    show ?thesis
    proof (cases "matchType TComma ts1")
      case None
      with 7(1) r b Some show ?thesis by (simp add: parseArguments.psimps)
    next
      case m: (Some ts2)
      have "length ts2 \<le> length ts1" using m by (rule matchType_le)
      moreover have "length (snd (parseArguments N (args @ [arg]) ts2)) \<le> length ts2"
        using 7(3) [OF r [symmetric] Some m] .
      ultimately show ?thesis using 7(1) r b Some m by (simp add: parseArguments.psimps)
    qed
  qed
next
  case (8 N ts)
  show ?case
  proof (cases "ttype (peek ts) = TCell \<and> ttype (peekNext ts) = TColon")
    case True
    have "length (advance (advance ts)) \<le> length ts"
      using length_advance [of ts] length_advance [of "advance ts"] by simp
    moreover have "\<And>ts3. matchType TCell (advance (advance ts)) = Some ts3 \<Longrightarrow> length ts3 \<le> length (advance (advance ts))"
      by (rule matchType_le)
    ultimately show ?thesis using 8(1) True
      by (auto simp: parseArgument.psimps split: option.splits)
  next
    case False
    have "parseArgument N ts = parseExpression N ts"
      using 8(1) False by (simp only: parseArgument.psimps if_False)
    with 8(2) [OF False] show ?thesis by simp
  qed
qed


termination parseExpression
proof (relation "measure (\<lambda>x. case x of
    Inl (Inl (Inl (N, ts))) \<Rightarrow> 8 * length ts + 5
  | Inl (Inl (Inr (N, node, ts))) \<Rightarrow> 8 * length ts + 4
  | Inl (Inr (Inl (N, ts))) \<Rightarrow> 8 * length ts + 3
  | Inl (Inr (Inr (N, node, ts))) \<Rightarrow> 8 * length ts + 2
  | Inr (Inl (Inl (N, ts))) \<Rightarrow> 8 * length ts + 1
  | Inr (Inl (Inr (N, ts))) \<Rightarrow> 8 * length ts
  | Inr (Inr (Inl (N, args, ts))) \<Rightarrow> 8 * length ts + 7
  | Inr (Inr (Inr (N, ts))) \<Rightarrow> 8 * length ts + 6)", goal_cases)
  case 1
  show ?case by simp
next
  case 2 then show ?case by simp
next
  case (3 N ts x y)
  then show ?case using parser_length_dom(3) [of N ts] by (simp flip: 3(1))
next
  case (4 N node ts x2)
  then show ?case by (auto dest: matchOperator_shorter)
next
  case (5 N node ts x2 x y x2a x2b)
  then show ?case using parser_length_dom(3) [of N x2] matchOperator_shorter [OF 5(1)]
    by (simp flip: 5(2))
next
  case 6 then show ?case by simp
next
  case (7 N ts x y)
  then show ?case using parser_length_dom(5) [of N ts] by (simp flip: 7(1))
next
  case (8 N node ts x2)
  then show ?case by (auto dest: matchOperator_shorter)
next
  case (9 N node ts x2 x y x2a x2b)
  then show ?case using parser_length_dom(5) [of N x2] matchOperator_shorter [OF 9(1)]
    by (simp flip: 9(2))
next
  case 10 then show ?case by simp
next
  case (11 N ts x2)
  then show ?case by (auto dest: matchOperator_shorter)
next
  case (12 N ts x2)
  then show ?case using matchParen_shorter [OF 12(4)] length_advance [of ts] by simp
next
  case (13 N ts x2)
  then show ?case using matchParen_shorter [OF 13(4)] by simp
next
  case 14 then show ?case by simp
next
  case (15 N args ts x y x2 x2a)
  then show ?case using parser_length_dom(8) [of N ts] matchType_shorter [OF 15(3)]
    by (simp flip: 15(1))
next
  case 16 then show ?case by simp
qed


declare parseExpression.simps [simp del] parseExpressionLoop.simps [simp del]
  parseTerm.simps [simp del] parseTermLoop.simps [simp del] parseUnary.simps [simp del]
  parsePrimary.simps [simp del] parseArguments.simps [simp del] parseArgument.simps [simp del]

record 'n ParseResult =
  ok :: bool
  ast :: "'n FormulaNode option"

definition parseFormula :: "'n NumberOps \<Rightarrow> Token list \<Rightarrow> 'n ParseResult" where
  "parseFormula N ts =
     (if ttype (peek ts) = TEof then \<lparr>ok = False, ast = None\<rparr>
      else (case parseExpression N ts of (a, ts1) \<Rightarrow>
        if a = None \<or> ttype (peek ts1) \<noteq> TEof then \<lparr>ok = False, ast = None\<rparr>
        else \<lparr>ok = True, ast = a\<rparr>))"

subsection \<open>Reference resolver\<close>

text \<open>
  The arithmetic of the resolver is that of doubles. \<open>roundToDouble\<close> is the double
  nearest to an integer: an integer below \<open>2^53\<close> in magnitude is a double; a larger one
  is rounded to 53 significant bits, a tie going to the even significand, and becomes
  infinite when the rounded magnitude reaches \<open>2^1024\<close>. The sum and the product of two
  doubles are the exact results, rounded. Of the operations on numbers the resolver uses
  \<open>x + k\<close> and \<open>x * k\<close> for a small positive or negative integer \<open>k\<close>, the comparisons,
  \<open>Math.min\<close>, \<open>Math.max\<close> and \<open>Number.isFinite\<close>.
\<close>

function bitLength :: "int \<Rightarrow> nat" where
  "bitLength n = (if n \<le> 0 then 0 else Suc (bitLength (n div 2)))"
  by pat_completeness auto
termination
  by (relation "measure nat") auto

declare bitLength.simps [simp del]

definition roundMagnitude :: "int \<Rightarrow> int option" where
  "roundMagnitude n =
     (if n < 2 ^ 53 then Some n
      else
        (let e = bitLength n - 53;
             q = n div 2 ^ e;
             r = n mod 2 ^ e;
             half = 2 ^ (e - 1);
             m = (if half < r \<or> (r = half \<and> odd q) then q + 1 else q) * 2 ^ e
         in if 2 ^ 1024 \<le> m then None else Some m))"

definition roundToDouble :: "int \<Rightarrow> JsInt" where
  "roundToDouble i =
     (case roundMagnitude \<bar>i\<bar> of
        None \<Rightarrow> if i < 0 then MinusInfinity else Infinity
      | Some m \<Rightarrow> Finite (if i < 0 then - m else m))"

fun jsPlus :: "JsInt \<Rightarrow> int \<Rightarrow> JsInt" where
  "jsPlus (Finite a) k = roundToDouble (a + k)"
| "jsPlus Infinity k = Infinity"
| "jsPlus MinusInfinity k = MinusInfinity"

text \<open>\<open>x * k\<close> for a positive \<open>k\<close>.\<close>

fun jsTimes :: "JsInt \<Rightarrow> int \<Rightarrow> JsInt" where
  "jsTimes (Finite a) k = roundToDouble (a * k)"
| "jsTimes Infinity k = Infinity"
| "jsTimes MinusInfinity k = MinusInfinity"

fun jsLe :: "JsInt \<Rightarrow> JsInt \<Rightarrow> bool" where
  "jsLe (Finite a) (Finite b) = (a \<le> b)"
| "jsLe MinusInfinity y = True"
| "jsLe (Finite a) Infinity = True"
| "jsLe Infinity Infinity = True"
| "jsLe (Finite a) MinusInfinity = False"
| "jsLe Infinity (Finite b) = False"
| "jsLe Infinity MinusInfinity = False"

definition jsLess :: "JsInt \<Rightarrow> JsInt \<Rightarrow> bool" where
  "jsLess x y = (jsLe x y \<and> x \<noteq> y)"

definition jsMin :: "JsInt \<Rightarrow> JsInt \<Rightarrow> JsInt" where
  "jsMin x y = (if jsLe x y then x else y)"

definition jsMax :: "JsInt \<Rightarrow> JsInt \<Rightarrow> JsInt" where
  "jsMax x y = (if jsLe x y then y else x)"

fun isFiniteInt :: "JsInt \<Rightarrow> bool" where
  "isFiniteInt (Finite a) = True"
| "isFiniteInt Infinity = False"
| "isFiniteInt MinusInfinity = False"

record CellCoords =
  row :: JsInt
  col :: JsInt

definition digitValue :: "char \<Rightarrow> int" where
  "digitValue c = int (of_char c) - 48"

text \<open>The integer that a run of decimal digits denotes.\<close>

definition digitsValue :: "string \<Rightarrow> int" where
  "digitsValue ds = foldl (\<lambda>acc c. acc * 10 + digitValue c) 0 ds"

text \<open>
  \<open>Number.parseInt(rowText, 10)\<close> on a non-empty run of decimal digits: the number
  value of the integer the digits denote. (The language lets an engine replace the digits
  after the twentieth by zeros before it rounds; the engines in use round the integer
  itself.)
\<close>

definition parseInt :: "string \<Rightarrow> JsInt" where
  "parseInt ds = roundToDouble (digitsValue ds)"

text \<open>
  \<open>parseCellRef\<close> matches \<open>/^([a-zA-Z]+)([0-9]+)$/\<close>: a non-empty letter run, then a
  non-empty digit run up to the end. The column is accumulated letter by letter as
  \<open>col * 26 + (charCode - 64)\<close> and then decremented, the row is \<open>parseInt(rowText) - 1\<close>,
  and the reference is refused when
  \<open>!Number.isFinite(row) || row < 0 || col < 0\<close>. An infinite column is not refused.
\<close>

definition parseCellRef :: "string \<Rightarrow> CellCoords option" where
  "parseCellRef ref =
     (let colLabel = takeWhile isAlpha ref;
          rowText = dropWhile isAlpha ref
      in if colLabel = [] \<or> rowText = [] \<or> \<not> list_all isDigit rowText then None
         else
           (let upper = toUpperCase colLabel;
                col = foldl (\<lambda>col ch. jsPlus (jsTimes col 26) (int (of_char ch) - 64))
                        (Finite 0) upper;
                col = jsPlus col (- 1);
                row = jsPlus (parseInt rowText) (- 1)
            in if \<not> isFiniteInt row \<or> jsLess row (Finite 0) \<or> jsLess col (Finite 0) then None
               else Some \<lparr>row = row, col = col\<rparr>))"

text \<open>
  The two loops of \<open>expandRange\<close> count in doubles: \<open>row += 1\<close> and \<open>col += 1\<close> leave a
  value of \<open>2^53\<close> or more where it is (or skip to the next double), so that a loop whose
  upper end is that large need not end. \<open>colLoop\<close> and \<open>rowLoop\<close> are the loops as
  they are written, \<open>keys\<close> being the array built so far; \<open>None\<close> says that the loop
  does not return.
\<close>

partial_function (option) colLoop ::
  "JsInt \<Rightarrow> JsInt \<Rightarrow> JsInt \<Rightarrow> CellKey list \<Rightarrow> CellKey list option" where
  "colLoop r c colEnd keys =
     (if jsLe c colEnd then colLoop r (jsPlus c 1) colEnd (keys @ [getCellKey r c])
      else Some keys)"

partial_function (option) rowLoop ::
  "JsInt \<Rightarrow> JsInt \<Rightarrow> JsInt \<Rightarrow> JsInt \<Rightarrow> CellKey list \<Rightarrow> CellKey list option" where
  "rowLoop r rowEnd colStart colEnd keys =
     (if jsLe r rowEnd
      then Option.bind (colLoop r colStart colEnd keys)
             (\<lambda>keys'. rowLoop (jsPlus r 1) rowEnd colStart colEnd keys')
      else Some keys)"

declare colLoop.simps [code]

declare rowLoop.simps [code]

definition expandRange :: "string \<Rightarrow> string \<Rightarrow> CellKey list option" where
  "expandRange start end =
     (case parseCellRef start of
        None \<Rightarrow> Some []
      | Some startCell \<Rightarrow>
          (case parseCellRef end of
             None \<Rightarrow> Some []
           | Some endCell \<Rightarrow>
               rowLoop (jsMin (row startCell) (row endCell)) (jsMax (row startCell) (row endCell))
                 (jsMin (col startCell) (col endCell)) (jsMax (col startCell) (col endCell)) []))"

text \<open>
  The dependency collector and the evaluator iterate over the keys that \<open>expandRange\<close>
  returns. Where \<open>expandRange\<close> does not return, they do not return in the source
  either; the model keeps both of them total and lets them go on with no keys, and what
  is stated below of the keys of a range is stated where \<open>expandRange\<close> returns.
\<close>

definition rangeKeys :: "string \<Rightarrow> string \<Rightarrow> CellKey list" where
  "rangeKeys start end = (case expandRange start end of None \<Rightarrow> [] | Some keys \<Rightarrow> keys)"

subsection \<open>Maps and sets in insertion order\<close>

definition mapGet :: "('k \<times> 'v) list \<Rightarrow> 'k \<Rightarrow> 'v option" where
  "mapGet m k = map_of m k"

definition mapHas :: "('k \<times> 'v) list \<Rightarrow> 'k \<Rightarrow> bool" where
  "mapHas m k = (map_of m k \<noteq> None)"

text \<open>\<open>Map.prototype.set\<close>: an existing key keeps its place, a new key goes last.\<close>

fun mapSet :: "('k \<times> 'v) list \<Rightarrow> 'k \<Rightarrow> 'v \<Rightarrow> ('k \<times> 'v) list" where
  "mapSet [] k v = [(k, v)]"
| "mapSet ((k', v') # m) k v = (if k' = k then (k, v) # m else (k', v') # mapSet m k v)"

definition mapKeys :: "('k \<times> 'v) list \<Rightarrow> 'k list" where
  "mapKeys m = map fst m"

definition setAdd :: "'a list \<Rightarrow> 'a \<Rightarrow> 'a list" where
  "setAdd s x = (if x \<in> set s then s else s @ [x])"

subsection \<open>Dependency collector\<close>

fun collectDependencies :: "'n FormulaNode \<Rightarrow> CellKey list \<Rightarrow> CellKey list" where
  "collectDependencies (Cell ref) deps =
     (case parseCellRef ref of
        None \<Rightarrow> deps
      | Some coords \<Rightarrow> setAdd deps (getCellKey (row coords) (col coords)))"
| "collectDependencies (RangeNode start end) deps =
     fold (\<lambda>key d. setAdd d key) (rangeKeys start end) deps"
| "collectDependencies (Binary op left right) deps =
     collectDependencies right (collectDependencies left deps)"
| "collectDependencies (Unary op operand) deps = collectDependencies operand deps"
| "collectDependencies (Function name args) deps =
     fold (\<lambda>arg d. collectDependencies arg d) args deps"
| "collectDependencies (Number v) deps = deps"

subsection \<open>Evaluator\<close>

text \<open>
  \<open>evaluateNode\<close> returns \<open>FormulaValue | FormulaValue[]\<close>: a single value, or the
  array of the values of a range.
\<close>

datatype 'n EvalResult = Scalar "'n FormulaValue" | Array "'n FormulaValue list"

text \<open>\<open>Array.isArray(value) ? value[0] ?? 0 : value\<close>\<close>

fun firstOrZero :: "'n NumberOps \<Rightarrow> 'n EvalResult \<Rightarrow> 'n FormulaValue" where
  "firstOrZero N (Scalar v) = v"
| "firstOrZero N (Array []) = Num (ofNat N 0)"
| "firstOrZero N (Array (v # vs)) = (if v = Null then Num (ofNat N 0) else v)"

text \<open>\<open>Array.isArray(value) ? value : [value]\<close>\<close>

fun asList :: "'n EvalResult \<Rightarrow> 'n FormulaValue list" where
  "asList (Scalar v) = [v]"
| "asList (Array vs) = vs"

definition sumNumbers :: "'n NumberOps \<Rightarrow> 'n list \<Rightarrow> 'n" where
  "sumNumbers N numbers = foldl (\<lambda>total v. numAdd N total v) (ofNat N 0) numbers"

fun evaluateNode ::
  "'n NumberOps \<Rightarrow> 'n FormulaNode \<Rightarrow> (CellKey \<Rightarrow> 'n FormulaValue) \<Rightarrow> 'n EvalResult" where
  "evaluateNode N (Number v) getCellValue = Scalar (Num v)"
| "evaluateNode N (Cell ref) getCellValue =
     (case parseCellRef ref of
        None \<Rightarrow> Scalar Null
      | Some coords \<Rightarrow> Scalar (getCellValue (getCellKey (row coords) (col coords))))"
| "evaluateNode N (RangeNode start end) getCellValue =
     Array (map getCellValue (rangeKeys start end))"
| "evaluateNode N (Unary op operand) getCellValue =
     (let numeric = toNumber N (firstOrZero N (evaluateNode N operand getCellValue))
      in Scalar (Num (if op = ''-'' then numNeg N numeric else numeric)))"
| "evaluateNode N (Binary op left right) getCellValue =
     (let leftNum = toNumber N (firstOrZero N (evaluateNode N left getCellValue));
          rightNum = toNumber N (firstOrZero N (evaluateNode N right getCellValue))
      in if op = ''+'' then Scalar (Num (numAdd N leftNum rightNum))
         else if op = ''-'' then Scalar (Num (numSub N leftNum rightNum))
         else if op = ''*'' then Scalar (Num (numMul N leftNum rightNum))
         else if op = ''/'' then
           (if isZero N rightNum then Scalar (Str ''#DIV/0!'')
            else Scalar (Num (numDiv N leftNum rightNum)))
         else Scalar (Str ''#ERROR''))"
| "evaluateNode N (Function name args) getCellValue =
     (let fname = toUpperCase name;
          rawArgs = concat (map (\<lambda>arg. asList (evaluateNode N arg getCellValue)) args);
          numbers = map (toNumber N) (filter (isNumericValue N) rawArgs)
      in if fname = ''SUM'' then Scalar (Num (sumNumbers N numbers))
         else if fname = ''AVERAGE'' then
           Scalar (Num (if length numbers = 0 then ofNat N 0
                        else numDiv N (sumNumbers N numbers) (ofNat N (length numbers))))
         else if fname = ''MIN'' then
           Scalar (Num (if length numbers = 0 then ofNat N 0 else mathMin N numbers))
         else if fname = ''MAX'' then
           Scalar (Num (if length numbers = 0 then ofNat N 0 else mathMax N numbers))
         else if fname = ''COUNT'' then Scalar (Num (ofNat N (length numbers)))
         else Scalar (Str ''#ERROR''))"


subsection \<open>Entry point: \<open>calculateDisplayCells\<close>\<close>

text \<open>The first loop: literals go to \<open>display\<close>, formulas are parsed.\<close>

record 'n Parsed =
  display :: "(CellKey \<times> string) list"
  formulas :: "(CellKey \<times> 'n FormulaNode) list"
  formulaErrors :: "CellKey list"
  dependencies :: "(CellKey \<times> CellKey list) list"

definition startsWithEq :: "string \<Rightarrow> bool" where
  "startsWithEq v = (case v of [] \<Rightarrow> False | c # _ \<Rightarrow> c = CHR ''='')"

definition parseCell :: "'n NumberOps \<Rightarrow> 'n Parsed \<Rightarrow> CellKey \<times> string \<Rightarrow> 'n Parsed" where
  "parseCell N st kv =
     (case kv of (key, v) \<Rightarrow>
        if \<not> startsWithEq v then st\<lparr>display := mapSet (display st) key v\<rparr>
        else
          (let result = parseFormula N (tokenize (tl v)) in
           case (if \<not> ok result then None else ast result) of
             None \<Rightarrow> st\<lparr>formulaErrors := setAdd (formulaErrors st) key\<rparr>
           | Some a \<Rightarrow>
               st\<lparr>formulas := mapSet (formulas st) key a,
                  dependencies := mapSet (dependencies st) key (collectDependencies a [])\<rparr>))"

definition parseCells :: "'n NumberOps \<Rightarrow> (CellKey \<times> string) list \<Rightarrow> 'n Parsed" where
  "parseCells N cells =
     foldl (parseCell N) \<lparr>display = [], formulas = [], formulaErrors = [], dependencies = []\<rparr> cells"

text \<open>The graph: an empty successor set and indegree 0 per formula, then the edges.\<close>

record 'k Graph =
  adjacency :: "('k \<times> 'k list) list"
  indegree :: "('k \<times> int) list"

definition initGraph :: "'k list \<Rightarrow> 'k Graph" where
  "initGraph keys =
     foldl (\<lambda>g key. \<lparr>adjacency = mapSet (adjacency g) key [], indegree = mapSet (indegree g) key 0\<rparr>)
       \<lparr>adjacency = [], indegree = []\<rparr> keys"

definition addEdge :: "('k \<times> 'a) list \<Rightarrow> 'k \<Rightarrow> 'k Graph \<Rightarrow> 'k \<Rightarrow> 'k Graph" where
  "addEdge fs cell g dep =
     (if \<not> mapHas fs dep then g
      else \<lparr>adjacency = (case mapGet (adjacency g) dep of
                           None \<Rightarrow> adjacency g
                         | Some succs \<Rightarrow> mapSet (adjacency g) dep (setAdd succs cell)),
            indegree = mapSet (indegree g) cell
                         ((case mapGet (indegree g) cell of None \<Rightarrow> 0 | Some c \<Rightarrow> c) + 1)\<rparr>)"

definition addEdges ::
  "('k \<times> 'a) list \<Rightarrow> ('k \<times> 'k list) list \<Rightarrow> 'k Graph \<Rightarrow> 'k Graph" where
  "addEdges fs deps g = foldl (\<lambda>g' (cell, ds). foldl (addEdge fs cell) g' ds) g deps"

definition initialQueue :: "('k \<times> int) list \<Rightarrow> 'k list" where
  "initialQueue ind = map fst (filter (\<lambda>(key, count). count = 0) ind)"

text \<open>
  The Kahn pass. One turn of the \<open>while\<close> loop takes the head of the queue, appends it
  to \<open>ordered\<close>, and lowers the indegree of each successor, queueing those that reach 0.
  The guard \<open>if (!current) break\<close> of the source never fires: \<open>shift\<close> of a non-empty
  queue returns a key, and a key is a non-empty string.
\<close>

definition relax :: "('k \<times> int) list \<times> 'k list \<Rightarrow> 'k \<Rightarrow> ('k \<times> int) list \<times> 'k list" where
  "relax st next =
     (case st of (ind, queue) \<Rightarrow>
        (let nextCount = (case mapGet ind next of None \<Rightarrow> 0 | Some c \<Rightarrow> c) - 1
         in (mapSet ind next nextCount, if nextCount = 0 then queue @ [next] else queue)))"

definition positives :: "('k \<times> int) list \<Rightarrow> nat" where
  "positives ind = length (filter (\<lambda>(key, count). 0 < count) ind)"

lemma relax_measure_aux:
  "c = (case map_of ind k of None \<Rightarrow> 0 | Some c' \<Rightarrow> c') \<Longrightarrow>
   positives (mapSet ind k (c - 1)) + (if c = 1 then 1 else 0) \<le> positives ind"
  by (induction ind arbitrary: c) (auto simp: positives_def)

lemma relax_measure:
  "length (snd (relax (ind, q) k)) + positives (fst (relax (ind, q) k)) \<le> length q + positives ind"
  using relax_measure_aux [OF refl, of ind k]
  by (cases "(case map_of ind k of None \<Rightarrow> 0 | Some c' \<Rightarrow> c') = (1::int)")
     (simp_all add: relax_def mapGet_def Let_def)

lemma foldl_relax_measure:
  "length (snd (foldl relax st ks)) + positives (fst (foldl relax st ks))
     \<le> length (snd st) + positives (fst st)"
proof (induction ks arbitrary: st)
  case Nil
  show ?case by simp
next
  case (Cons k ks)
  obtain ind q where st: "st = (ind, q)" by (cases st)
  have "length (snd (foldl relax (relax st k) ks)) + positives (fst (foldl relax (relax st k) ks))
          \<le> length (snd (relax st k)) + positives (fst (relax st k))"
    by (rule Cons.IH)
  also have "\<dots> \<le> length (snd st) + positives (fst st)"
    unfolding st using relax_measure [of ind q k] by simp
  finally show ?case by simp
qed

definition successors :: "('k \<times> 'k list) list \<Rightarrow> 'k \<Rightarrow> 'k list" where
  "successors adj current = (case mapGet adj current of None \<Rightarrow> [] | Some succs \<Rightarrow> succs)"

function kahnLoop ::
  "('k \<times> 'k list) list \<Rightarrow> 'k list \<Rightarrow> 'k list \<Rightarrow> ('k \<times> int) list
     \<Rightarrow> 'k list" where
  "kahnLoop adj queue ordered ind =
     (case queue of
        [] \<Rightarrow> ordered
      | current # rest \<Rightarrow>
          (case foldl relax (ind, rest) (successors adj current) of
             (ind', queue') \<Rightarrow> kahnLoop adj queue' (ordered @ [current]) ind'))"
  by pat_completeness auto
termination
proof (relation "measure (\<lambda>(adj, queue, ordered, ind). length queue + positives ind)", goal_cases)
  case 1
  show ?case by simp
next
  case (2 adj queue ordered ind current rest ind' queue')
  then show ?case
    using foldl_relax_measure [of "(ind, rest)" "successors adj current"]
    by (simp flip: 2(2))
qed

declare kahnLoop.simps [simp del]

definition scheduleOrder :: "'n Parsed \<Rightarrow> CellKey list" where
  "scheduleOrder st =
     (let g = addEdges (formulas st) (dependencies st) (initGraph (mapKeys (formulas st)))
      in kahnLoop (adjacency g) (initialQueue (indegree g)) [] (indegree g))"

text \<open>
  The lookup handed to the evaluator: \<open>computed\<close> first, then \<open>display\<close> (which holds
  the literal cells while formulas are evaluated), then the raw cell text.
\<close>

definition getCellValue ::
  "(CellKey \<times> 'n FormulaValue) list \<Rightarrow> (CellKey \<times> string) list \<Rightarrow> (CellKey \<times> string) list
     \<Rightarrow> CellKey \<Rightarrow> 'n FormulaValue" where
  "getCellValue computed disp cells key =
     (case mapGet computed key of
        Some v \<Rightarrow> v
      | None \<Rightarrow>
          (case mapGet disp key of
             Some s \<Rightarrow> Str s
           | None \<Rightarrow> (case mapGet cells key of Some s \<Rightarrow> Str s | None \<Rightarrow> Null)))"

text \<open>
  \<open>evaluateNode(ast, getCellValue) as FormulaValue\<close> is a type assertion without effect
  at run time. The trees that reach it come from \<open>parseFormula\<close>, whose result is never
  a range node, so that \<open>evaluateNode\<close> yields a single value there (lemmas
  \<open>parseFormula_not_range\<close> and \<open>evaluateNode_scalar\<close> below); the second equation is
  there only to make the function total.
\<close>

fun asFormulaValue :: "'n EvalResult \<Rightarrow> 'n FormulaValue" where
  "asFormulaValue (Scalar v) = v"
| "asFormulaValue (Array vs) = Null"

definition evaluateStep ::
  "'n NumberOps \<Rightarrow> 'n Parsed \<Rightarrow> (CellKey \<times> string) list \<Rightarrow> (CellKey \<times> 'n FormulaValue) list
     \<Rightarrow> CellKey \<Rightarrow> (CellKey \<times> 'n FormulaValue) list" where
  "evaluateStep N st cells computed key =
     (if key \<in> set (formulaErrors st) then mapSet computed key (Str ''#ERROR'')
      else
        (case mapGet (formulas st) key of
           None \<Rightarrow> mapSet computed key (Str ''#ERROR'')
         | Some a \<Rightarrow>
             mapSet computed key
               (asFormulaValue (evaluateNode N a (getCellValue computed (display st) cells)))))"

definition evaluateAll ::
  "'n NumberOps \<Rightarrow> 'n Parsed \<Rightarrow> (CellKey \<times> string) list \<Rightarrow> CellKey list
     \<Rightarrow> (CellKey \<times> 'n FormulaValue) list" where
  "evaluateAll N st cells ordered = foldl (evaluateStep N st cells) [] ordered"

definition markCycles ::
  "CellKey list \<Rightarrow> (CellKey \<times> 'n FormulaValue) list \<Rightarrow> (CellKey \<times> 'n FormulaValue) list" where
  "markCycles keys computed =
     foldl (\<lambda>c key. if \<not> mapHas c key then mapSet c key (Str ''#CYCLE'') else c) computed keys"

definition formatAll ::
  "'n NumberOps \<Rightarrow> (CellKey \<times> string) list \<Rightarrow> (CellKey \<times> 'n FormulaValue) list
     \<Rightarrow> (CellKey \<times> string) list" where
  "formatAll N disp computed = foldl (\<lambda>d (key, v). mapSet d key (formatValue N v)) disp computed"

definition markErrors :: "(CellKey \<times> string) list \<Rightarrow> CellKey list \<Rightarrow> (CellKey \<times> string) list" where
  "markErrors disp errs =
     foldl (\<lambda>d key. if \<not> mapHas d key then mapSet d key ''#ERROR'' else d) disp errs"

definition calculateDisplayCells ::
  "'n NumberOps \<Rightarrow> (CellKey \<times> string) list \<Rightarrow> (CellKey \<times> string) list" where
  "calculateDisplayCells N cells =
     (let st = parseCells N cells;
          ordered = scheduleOrder st;
          computed = markCycles (mapKeys (formulas st)) (evaluateAll N st cells ordered)
      in markErrors (formatAll N (display st) computed) (formulaErrors st))"

subsection \<open>The number primitives as doubles\<close>

text \<open>
  To run the engine on concrete sheets the primitives are interpreted by IEEE doubles: a
  finite double is the rational it denotes, every operation is the exact operation
  followed by rounding to the nearest double, and the two zeros, the two infinities and
  NaN are values of their own. \<open>Dbl 0\<close> is the positive zero.
\<close>

datatype JsNumber = Dbl rat | NegZero | PosInf | NegInf | NaN

text \<open>
  \<open>roundPositive n d\<close> is the double nearest to the positive rational \<open>n / d\<close>, a tie
  going to the even significand: 53 significant bits, or fewer below \<open>2^-1022\<close>, where
  the doubles are the multiples of \<open>2^-1074\<close>; \<open>None\<close> when the result is infinite.
\<close>

definition roundPositive :: "int \<Rightarrow> int \<Rightarrow> rat option" where
  "roundPositive n d =
     (let t = int (bitLength n) - int (bitLength d);
          l = (if (if 0 \<le> t then d * 2 ^ nat t \<le> n else d \<le> n * 2 ^ nat (- t)) then t else t - 1);
          e = max (l - 52) (- 1074);
          num = (if 0 \<le> e then n else n * 2 ^ nat (- e));
          den = (if 0 \<le> e then d * 2 ^ nat e else d);
          m = num div den;
          r = num mod den;
          m = (if den < 2 * r \<or> (2 * r = den \<and> odd m) then m + 1 else m)
      in if 0 \<le> e
         then (if 2 ^ 1024 \<le> m * 2 ^ nat e then None else Some (of_int (m * 2 ^ nat e)))
         else Some (Fract m (2 ^ nat (- e))))"

definition roundRat :: "rat \<Rightarrow> JsNumber" where
  "roundRat q =
     (case quotient_of q of (n, d) \<Rightarrow>
        if n = 0 then Dbl 0
        else if 0 < n then (case roundPositive n d of None \<Rightarrow> PosInf | Some v \<Rightarrow> Dbl v)
        else (case roundPositive (- n) d of
                None \<Rightarrow> NegInf
              | Some v \<Rightarrow> if v = 0 then NegZero else Dbl (- v)))"

fun isNegative :: "JsNumber \<Rightarrow> bool" where
  "isNegative (Dbl q) = (q < 0)"
| "isNegative NegZero = True"
| "isNegative NegInf = True"
| "isNegative PosInf = False"
| "isNegative NaN = False"

fun jsNeg :: "JsNumber \<Rightarrow> JsNumber" where
  "jsNeg (Dbl q) = (if q = 0 then NegZero else Dbl (- q))"
| "jsNeg NegZero = Dbl 0"
| "jsNeg PosInf = NegInf"
| "jsNeg NegInf = PosInf"
| "jsNeg NaN = NaN"

fun jsAdd :: "JsNumber \<Rightarrow> JsNumber \<Rightarrow> JsNumber" where
  "jsAdd NaN y = NaN"
| "jsAdd x NaN = NaN"
| "jsAdd PosInf NegInf = NaN"
| "jsAdd NegInf PosInf = NaN"
| "jsAdd PosInf y = PosInf"
| "jsAdd NegInf y = NegInf"
| "jsAdd x PosInf = PosInf"
| "jsAdd x NegInf = NegInf"
| "jsAdd NegZero NegZero = NegZero"
| "jsAdd NegZero (Dbl b) = Dbl b"
| "jsAdd (Dbl a) NegZero = Dbl a"
| "jsAdd (Dbl a) (Dbl b) = (if a + b = 0 then Dbl 0 else roundRat (a + b))"

definition jsSub :: "JsNumber \<Rightarrow> JsNumber \<Rightarrow> JsNumber" where
  "jsSub x y = jsAdd x (jsNeg y)"

fun isZeroNum :: "JsNumber \<Rightarrow> bool" where
  "isZeroNum (Dbl q) = (q = 0)"
| "isZeroNum NegZero = True"
| "isZeroNum x = False"

fun isInfinite :: "JsNumber \<Rightarrow> bool" where
  "isInfinite PosInf = True"
| "isInfinite NegInf = True"
| "isInfinite x = False"

fun magnitude :: "JsNumber \<Rightarrow> rat" where
  "magnitude (Dbl q) = \<bar>q\<bar>"
| "magnitude x = 0"

definition withSign :: "bool \<Rightarrow> JsNumber \<Rightarrow> JsNumber" where
  "withSign negative x = (if negative then jsNeg x else x)"

definition jsMul :: "JsNumber \<Rightarrow> JsNumber \<Rightarrow> JsNumber" where
  "jsMul x y =
     (if x = NaN \<or> y = NaN then NaN
      else if (isInfinite x \<and> isZeroNum y) \<or> (isZeroNum x \<and> isInfinite y) then NaN
      else
        (let negative = (isNegative x \<noteq> isNegative y)
         in if isInfinite x \<or> isInfinite y then withSign negative PosInf
            else withSign negative (roundRat (magnitude x * magnitude y))))"

definition jsDiv :: "JsNumber \<Rightarrow> JsNumber \<Rightarrow> JsNumber" where
  "jsDiv x y =
     (if x = NaN \<or> y = NaN then NaN
      else if (isInfinite x \<and> isInfinite y) \<or> (isZeroNum x \<and> isZeroNum y) then NaN
      else
        (let negative = (isNegative x \<noteq> isNegative y)
         in if isInfinite x \<or> isZeroNum y then withSign negative PosInf
            else if isInfinite y then withSign negative (Dbl 0)
            else withSign negative (roundRat (magnitude x / magnitude y))))"

text \<open>The order that \<open>Math.min\<close> and \<open>Math.max\<close> use: \<open>-0\<close> is below \<open>+0\<close>.\<close>

fun jsLeq :: "JsNumber \<Rightarrow> JsNumber \<Rightarrow> bool" where
  "jsLeq NegInf y = True"
| "jsLeq x PosInf = True"
| "jsLeq PosInf y = False"
| "jsLeq x NegInf = False"
| "jsLeq NegZero NegZero = True"
| "jsLeq NegZero (Dbl b) = (0 \<le> b)"
| "jsLeq (Dbl a) NegZero = (a < 0)"
| "jsLeq (Dbl a) (Dbl b) = (a \<le> b)"
| "jsLeq NaN y = False"
| "jsLeq x NaN = False"

definition jsMathMin :: "JsNumber list \<Rightarrow> JsNumber" where
  "jsMathMin xs = (if NaN \<in> set xs then NaN else fold (\<lambda>x m. if jsLeq x m then x else m) xs PosInf)"

definition jsMathMax :: "JsNumber list \<Rightarrow> JsNumber" where
  "jsMathMax xs = (if NaN \<in> set xs then NaN else fold (\<lambda>x m. if jsLeq m x then x else m) xs NegInf)"

function decimalLength :: "int \<Rightarrow> nat" where
  "decimalLength n = (if n \<le> 0 then 0 else Suc (decimalLength (n div 10)))"
  by pat_completeness auto
termination
  by (relation "measure nat") auto

declare decimalLength.simps [simp del]

definition pow10 :: "int \<Rightarrow> rat" where
  "pow10 e = (if 0 \<le> e then of_int (10 ^ nat e) else Fract 1 (10 ^ nat (- e)))"

text \<open>The \<open>n\<close> with \<open>10^(n-1) \<le> q < 10^n\<close>, for a positive \<open>q\<close>.\<close>

definition decimalExponent :: "rat \<Rightarrow> int" where
  "decimalExponent q =
     (case quotient_of q of (n, d) \<Rightarrow>
        (let t = int (decimalLength n) - int (decimalLength d)
         in if pow10 t \<le> q then t + 1 else t))"

function natDigits :: "int \<Rightarrow> string" where
  "natDigits n = (if n < 10 then [char_of (48 + nat n)] else natDigits (n div 10) @ [char_of (48 + nat (n mod 10))])"
  by pat_completeness auto
termination
  by (relation "measure nat") auto

declare natDigits.simps [simp del]

text \<open>
  \<open>String(value)\<close> prints the shortest run of digits that reads back as the same
  double and, among the runs of that length, the one nearest to the value.
  \<open>digitsFor q n0 k\<close> is the run of \<open>k\<close> digits and its decimal exponent, if \<open>k\<close>
  digits are enough; seventeen always are.
\<close>

definition digitsFor :: "rat \<Rightarrow> int \<Rightarrow> nat \<Rightarrow> (int \<times> int) option" where
  "digitsFor q n0 k =
     (let scale = pow10 (n0 - int k);
          lo = \<lfloor>q / scale\<rfloor>;
          hi = lo + 1;
          okLo = (roundRat (of_int lo * scale) = Dbl q);
          okHi = (roundRat (of_int hi * scale) = Dbl q);
          dLo = q - of_int lo * scale;
          dHi = of_int hi * scale - q;
          useHi = (okHi \<and> (\<not> okLo \<or> dHi < dLo \<or> (dHi = dLo \<and> even hi)))
      in if useHi then (if hi = 10 ^ k then Some (10 ^ (k - 1), n0 + 1) else Some (hi, n0))
         else if okLo then Some (lo, n0) else None)"

fun shortestDigits :: "rat \<Rightarrow> int \<Rightarrow> nat \<Rightarrow> nat \<Rightarrow> int \<times> int \<times> nat" where
  "shortestDigits q n0 k 0 = (0, 0, 0)"
| "shortestDigits q n0 k (Suc fuel) =
     (case digitsFor q n0 k of
        Some (s, n) \<Rightarrow> (s, n, k)
      | None \<Rightarrow> shortestDigits q n0 (Suc k) fuel)"

definition positiveToString :: "rat \<Rightarrow> string" where
  "positiveToString q =
     (case shortestDigits q (decimalExponent q) 1 17 of (s, n, k) \<Rightarrow>
        (let ds = natDigits s in
         if int k \<le> n \<and> n \<le> 21 then ds @ replicate (nat (n - int k)) (CHR ''0'')
         else if 0 < n \<and> n \<le> 21 then take (nat n) ds @ ''.'' @ drop (nat n) ds
         else if - 6 < n \<and> n \<le> 0 then ''0.'' @ replicate (nat (- n)) (CHR ''0'') @ ds
         else
           (let e = n - 1;
                ex = (if 0 \<le> e then ''+'' else ''-'') @ natDigits \<bar>e\<bar>
            in if k = 1 then ds @ ''e'' @ ex
               else take 1 ds @ ''.'' @ drop 1 ds @ ''e'' @ ex)))"

fun jsToString :: "JsNumber \<Rightarrow> string" where
  "jsToString (Dbl q) =
     (if q = 0 then ''0'' else if q < 0 then ''-'' @ positiveToString (- q) else positiveToString q)"
| "jsToString NegZero = ''0''"
| "jsToString PosInf = ''Infinity''"
| "jsToString NegInf = ''-Infinity''"
| "jsToString NaN = ''NaN''"

text \<open>
  \<open>Number.parseFloat\<close> skips leading white space and reads the longest prefix that is
  a decimal literal: a sign, then \<open>Infinity\<close> or digits with an optional fraction and an
  optional exponent; it yields NaN when there is no such prefix.
\<close>

definition startsWith :: "string \<Rightarrow> string \<Rightarrow> bool" where
  "startsWith p s = (take (length p) s = p)"

definition jsParseFloat :: "string \<Rightarrow> JsNumber" where
  "jsParseFloat input =
     (let s = dropWhile isTrimSpace input;
          negative = startsWith ''-'' s;
          s = (if startsWith ''-'' s \<or> startsWith ''+'' s then tl s else s)
      in if startsWith ''Infinity'' s then withSign negative PosInf
         else
           (let ip = takeWhile isDigit s;
                rest = dropWhile isDigit s;
                fp = (if startsWith ''.'' rest then takeWhile isDigit (tl rest) else []);
                rest = (if startsWith ''.'' rest then dropWhile isDigit (tl rest) else rest);
                hasExp = (startsWith ''e'' rest \<or> startsWith ''E'' rest);
                es = (if hasExp then tl rest else []);
                eneg = startsWith ''-'' es;
                es = (if startsWith ''-'' es \<or> startsWith ''+'' es then tl es else es);
                ed = takeWhile isDigit es;
                ex = (if eneg then - digitsValue ed else digitsValue ed)
            in if ip = [] \<and> fp = [] then NaN
               else withSign negative
                      (roundRat (of_int (digitsValue (ip @ fp)) * pow10 (ex - int (length fp))))))"

definition doubleOps :: "JsNumber NumberOps" where
  "doubleOps =
     \<lparr>parseFloat = jsParseFloat,
      isFinite = (\<lambda>x. case x of Dbl q \<Rightarrow> True | NegZero \<Rightarrow> True | _ \<Rightarrow> False),
      numToString = jsToString,
      ofNat = (\<lambda>n. roundRat (of_nat n)),
      isZero = isZeroNum,
      numAdd = jsAdd,
      numSub = jsSub,
      numMul = jsMul,
      numDiv = jsDiv,
      numNeg = jsNeg,
      mathMin = jsMathMin,
      mathMax = jsMathMax\<rparr>"


section \<open>The scheduling pass\<close>

subsection \<open>Vocabulary\<close>

text \<open>
  \<open>cnt\<close> reads an indegree (\<open>indegree.get(key) ?? 0\<close>), \<open>preds\<close> are the nodes with an
  edge into a node, \<open>edgeRel\<close> is the edge relation of an adjacency map.
\<close>

definition cnt :: "('k \<times> int) list \<Rightarrow> 'k \<Rightarrow> int" where
  "cnt ind k = (case mapGet ind k of None \<Rightarrow> 0 | Some c \<Rightarrow> c)"

definition preds :: "('k \<times> 'k list) list \<Rightarrow> 'k \<Rightarrow> 'k set" where
  "preds adj c = {d \<in> set (mapKeys adj). c \<in> set (successors adj d)}"

definition topological :: "('k \<times> 'k list) list \<Rightarrow> 'k list \<Rightarrow> bool" where
  "topological adj xs = (\<forall>i < length xs. preds adj (xs ! i) \<subseteq> set (take i xs))"

definition kahnInv ::
  "('k \<times> 'k list) list \<Rightarrow> 'k list \<Rightarrow> 'k list \<Rightarrow> ('k \<times> int) list \<Rightarrow> bool" where
  "kahnInv adj queue ordered ind =
     (distinct (ordered @ queue) \<and> set (ordered @ queue) \<subseteq> set (mapKeys adj) \<and>
      (\<forall>c \<in> set (mapKeys adj). cnt ind c = int (card (preds adj c - set ordered))) \<and>
      (\<forall>c \<in> set (mapKeys adj). c \<in> set (ordered @ queue) \<longleftrightarrow> preds adj c \<subseteq> set ordered) \<and>
      topological adj ordered)"

definition wellFormedAdj :: "('k \<times> 'k list) list \<Rightarrow> bool" where
  "wellFormedAdj adj =
     (\<forall>d. distinct (successors adj d) \<and> set (successors adj d) \<subseteq> set (mapKeys adj))"

definition kahnFinal :: "('k \<times> 'k list) list \<Rightarrow> 'k list \<Rightarrow> bool" where
  "kahnFinal adj out =
     (distinct out \<and> set out \<subseteq> set (mapKeys adj) \<and>
      (\<forall>c \<in> set (mapKeys adj). c \<in> set out \<longleftrightarrow> preds adj c \<subseteq> set out) \<and>
      topological adj out)"

definition graphKeys :: "('k \<times> 'a) list \<Rightarrow> 'k Graph \<Rightarrow> bool" where
  "graphKeys fs g = (mapKeys (adjacency g) = mapKeys fs \<and> mapKeys (indegree g) = mapKeys fs)"

definition edgeCount :: "'k set \<Rightarrow> ('k \<times> 'k list) list \<Rightarrow> 'k \<Rightarrow> int" where
  "edgeCount F deps c =
     sum_list (map (\<lambda>(c', ds). if c' = c then int (length (filter (\<lambda>d. d \<in> F) ds)) else 0) deps)"

definition edgeRel :: "('k \<times> 'k list) list \<Rightarrow> ('k \<times> 'k) set" where
  "edgeRel adj = {(d, c). d \<in> set (mapKeys adj) \<and> c \<in> set (successors adj d)}"

subsection \<open>One turn of the loop keeps the invariant\<close>

lemma map_of_mapSet: "map_of (mapSet m k v) = (map_of m)(k \<mapsto> v)"
  by (induction m) (auto simp: fun_eq_iff)

lemma cnt_mapSet: "cnt (mapSet ind s v) k = (if k = s then v else cnt ind k)"
  by (simp add: cnt_def mapGet_def map_of_mapSet)

lemma relax_eq:
  "relax (ind, q) s = (mapSet ind s (cnt ind s - 1), if cnt ind s = 1 then q @ [s] else q)"
  by (simp add: relax_def cnt_def Let_def)

lemma foldl_relax_distinct:
  "distinct S \<Longrightarrow>
   \<exists>ind'. foldl relax (ind, q) S = (ind', q @ filter (\<lambda>s. cnt ind s = 1) S) \<and>
          (\<forall>k. cnt ind' k = (if k \<in> set S then cnt ind k - 1 else cnt ind k))"
proof (induction S arbitrary: ind q)
  case Nil
  show ?case by simp
next
  case (Cons s S)
  let ?ind1 = "mapSet ind s (cnt ind s - 1)"
  let ?q1 = "if cnt ind s = 1 then q @ [s] else q"
  from Cons.prems have d: "distinct S" and ns: "s \<notin> set S" by simp_all
  from Cons.IH [OF d, of ?ind1 ?q1] obtain ind' where
    f: "foldl relax (?ind1, ?q1) S = (ind', ?q1 @ filter (\<lambda>x. cnt ?ind1 x = 1) S)" and
    c: "\<forall>k. cnt ind' k = (if k \<in> set S then cnt ?ind1 k - 1 else cnt ?ind1 k)" by blast
  have same: "filter (\<lambda>x. cnt ?ind1 x = 1) S = filter (\<lambda>x. cnt ind x = 1) S"
    using ns by (intro filter_cong) (auto simp: cnt_mapSet)
  have "foldl relax (ind, q) (s # S) = (ind', q @ filter (\<lambda>x. cnt ind x = 1) (s # S))"
    using f same by (simp add: relax_eq)
  moreover have "\<forall>k. cnt ind' k = (if k \<in> set (s # S) then cnt ind k - 1 else cnt ind k)"
    using c ns by (auto simp: cnt_mapSet)
  ultimately show ?case by blast
qed

lemma finite_preds: "finite (preds adj c)"
  by (simp add: preds_def)

lemma topological_snoc:
  "topological adj xs \<Longrightarrow> preds adj x \<subseteq> set xs \<Longrightarrow> topological adj (xs @ [x])"
  unfolding topological_def
proof (intro allI impI)
  fix i
  assume t: "\<forall>i<length xs. preds adj (xs ! i) \<subseteq> set (take i xs)"
    and p: "preds adj x \<subseteq> set xs" and i: "i < length (xs @ [x])"
  show "preds adj ((xs @ [x]) ! i) \<subseteq> set (take i (xs @ [x]))"
  proof (cases "i < length xs")
    case True
    with t show ?thesis by (simp add: nth_append)
  next
    case False
    with i have "i = length xs" by simp
    with p show ?thesis by simp
  qed
qed

lemma kahn_step:
  assumes wf: "wellFormedAdj adj"
    and inv: "kahnInv adj (current # rest) ordered ind"
    and f: "foldl relax (ind, rest) (successors adj current) = (ind', queue')"
  shows "kahnInv adj queue' (ordered @ [current]) ind'"
proof -
  let ?K = "set (mapKeys adj)"
  let ?S = "successors adj current"
  from wf have dS: "distinct ?S" and sS: "set ?S \<subseteq> ?K"
    unfolding wellFormedAdj_def by blast+
  from inv have d: "distinct (ordered @ current # rest)"
    and sub: "set (ordered @ current # rest) \<subseteq> ?K"
    and c1: "\<And>c. c \<in> ?K \<Longrightarrow> cnt ind c = int (card (preds adj c - set ordered))"
    and c2: "\<And>c. c \<in> ?K \<Longrightarrow> c \<in> set (ordered @ current # rest) \<longleftrightarrow> preds adj c \<subseteq> set ordered"
    and top: "topological adj ordered"
    by (auto simp: kahnInv_def)
  from foldl_relax_distinct [OF dS, of ind rest] f
  have q': "queue' = rest @ filter (\<lambda>s. cnt ind s = 1) ?S"
    and c': "\<And>k. cnt ind' k = (if k \<in> set ?S then cnt ind k - 1 else cnt ind k)"
    by auto
  from sub have curK: "current \<in> ?K" by simp
  from d have curO: "current \<notin> set ordered" and curR: "current \<notin> set rest" by auto
  have inS: "\<And>c. c \<in> set ?S \<longleftrightarrow> current \<in> preds adj c"
    using curK by (simp add: preds_def)
  have zero: "\<And>c. c \<in> ?K \<Longrightarrow> cnt ind c = 0 \<longleftrightarrow> preds adj c \<subseteq> set ordered"
  proof -
    fix c assume "c \<in> ?K"
    then have "cnt ind c = int (card (preds adj c - set ordered))" by (rule c1)
    moreover have "finite (preds adj c - set ordered)" using finite_preds by simp
    ultimately show "cnt ind c = 0 \<longleftrightarrow> preds adj c \<subseteq> set ordered" by auto
  qed
  have posS: "\<And>c. c \<in> set ?S \<Longrightarrow> 1 \<le> cnt ind c"
  proof -
    fix c assume cs: "c \<in> set ?S"
    with sS have cK: "c \<in> ?K" by auto
    from cs have "current \<in> preds adj c - set ordered" using inS curO by simp
    then have "card (preds adj c - set ordered) \<noteq> 0" using finite_preds [of adj c] by auto
    with c1 [OF cK] show "1 \<le> cnt ind c" by simp
  qed
  have new1: "\<And>c. c \<in> ?K \<Longrightarrow> cnt ind' c = int (card (preds adj c - set (ordered @ [current])))"
  proof -
    fix c assume cK: "c \<in> ?K"
    have eq: "preds adj c - set (ordered @ [current]) = (preds adj c - set ordered) - {current}"
      by auto
    show "cnt ind' c = int (card (preds adj c - set (ordered @ [current])))"
    proof (cases "c \<in> set ?S")
      case True
      then have m: "current \<in> preds adj c - set ordered" using inS curO by simp
      have f: "finite (preds adj c - set ordered)" using finite_preds by simp
      have "card ((preds adj c - set ordered) - {current}) = card (preds adj c - set ordered) - 1"
        using m f by simp
      moreover have "1 \<le> card (preds adj c - set ordered)"
        using m f by (metis One_nat_def Suc_leI card_gt_0_iff empty_iff)
      ultimately show ?thesis using True c' [of c] c1 [OF cK] eq by simp
    next
      case False
      then have "current \<notin> preds adj c" using inS by simp
      then have "(preds adj c - set ordered) - {current} = preds adj c - set ordered" by auto
      with False c' [of c] c1 [OF cK] eq show ?thesis by simp
    qed
  qed
  have dist: "distinct ((ordered @ [current]) @ queue')"
  proof -
    have "\<And>s. s \<in> set ?S \<Longrightarrow> cnt ind s = 1 \<Longrightarrow> s \<notin> set (ordered @ current # rest)"
    proof -
      fix s assume s: "s \<in> set ?S" and one: "cnt ind s = 1"
      from s sS have sK: "s \<in> ?K" by auto
      from one zero [OF sK] have "\<not> preds adj s \<subseteq> set ordered" by simp
      with c2 [OF sK] show "s \<notin> set (ordered @ current # rest)" by simp
    qed
    then have "set (filter (\<lambda>s. cnt ind s = 1) ?S) \<inter> set (ordered @ current # rest) = {}"
      by auto
    with d dS show ?thesis unfolding q' by auto
  qed
  have subs: "set ((ordered @ [current]) @ queue') \<subseteq> ?K"
    using sub sS unfolding q' by auto
  have new2: "\<And>c. c \<in> ?K \<Longrightarrow>
      c \<in> set ((ordered @ [current]) @ queue') \<longleftrightarrow> preds adj c \<subseteq> set (ordered @ [current])"
  proof -
    fix c assume cK: "c \<in> ?K"
    have f: "finite (preds adj c - set (ordered @ [current]))" using finite_preds by simp
    have r: "preds adj c \<subseteq> set (ordered @ [current]) \<longleftrightarrow> cnt ind' c = 0"
      using new1 [OF cK] f by auto
    have l: "c \<in> set ((ordered @ [current]) @ queue') \<longleftrightarrow>
             cnt ind c = 0 \<or> (c \<in> set ?S \<and> cnt ind c = 1)"
      using c2 [OF cK] zero [OF cK] unfolding q' by auto
    show "c \<in> set ((ordered @ [current]) @ queue') \<longleftrightarrow> preds adj c \<subseteq> set (ordered @ [current])"
      unfolding r l using c' [of c] posS [of c] by auto
  qed
  have "preds adj current \<subseteq> set ordered" using c2 [OF curK] by simp
  with top have top': "topological adj (ordered @ [current])" by (rule topological_snoc)
  show ?thesis
    unfolding kahnInv_def using dist subs new1 new2 top' by blast
qed

lemma kahnLoop_final:
  "wellFormedAdj adj \<Longrightarrow> kahnInv adj queue ordered ind \<Longrightarrow>
   kahnFinal adj (kahnLoop adj queue ordered ind)"
proof (induction adj queue ordered ind rule: kahnLoop.induct)
  case (1 adj queue ordered ind)
  show ?case
  proof (cases queue)
    case Nil
    with 1(3) show ?thesis by (simp add: kahnInv_def kahnFinal_def kahnLoop.simps [of _ "[]"])
  next
    case (Cons current rest)
    obtain ind' queue' where f: "foldl relax (ind, rest) (successors adj current) = (ind', queue')"
      by (cases "foldl relax (ind, rest) (successors adj current)")
    have "kahnInv adj queue' (ordered @ [current]) ind'"
      using kahn_step [OF 1(2) _ f] 1(3) Cons by simp
    from 1(1) [OF Cons f [symmetric] 1(2) this] show ?thesis
      using Cons f by (subst kahnLoop.simps) simp
  qed
qed

lemma mapKeys_mapSet:
  "mapKeys (mapSet m k v) = (if k \<in> set (mapKeys m) then mapKeys m else mapKeys m @ [k])"
  by (induction m) (force simp: mapKeys_def)+

lemma mapHas_iff: "mapHas m k \<longleftrightarrow> k \<in> set (mapKeys m)"
  by (simp add: mapHas_def mapKeys_def map_of_eq_None_iff)

lemma mapGet_mapSet: "mapGet (mapSet m k v) k' = (if k' = k then Some v else mapGet m k')"
  by (simp add: mapGet_def map_of_mapSet)

lemma successors_mapSet:
  "successors (mapSet adj k v) d = (if d = k then v else successors adj d)"
  by (simp add: successors_def mapGet_mapSet)

lemma successors_notin: "d \<notin> set (mapKeys adj) \<Longrightarrow> successors adj d = []"
  by (simp add: successors_def mapGet_def mapKeys_def map_of_eq_None_iff [THEN iffD2])

lemma addEdge_props:
  assumes gk: "graphKeys fs g" and cell: "cell \<in> set (mapKeys fs)"
  shows "graphKeys fs (addEdge fs cell g dep)"
    and "successors (adjacency (addEdge fs cell g dep)) d =
           (if d = dep \<and> dep \<in> set (mapKeys fs) then setAdd (successors (adjacency g) d) cell
            else successors (adjacency g) d)"
    and "cnt (indegree (addEdge fs cell g dep)) c =
           (if c = cell \<and> dep \<in> set (mapKeys fs) then cnt (indegree g) c + 1
            else cnt (indegree g) c)"
proof -
  show "graphKeys fs (addEdge fs cell g dep)"
    using gk cell
    by (auto simp: graphKeys_def addEdge_def mapKeys_mapSet mapHas_iff split: option.splits)
  show "successors (adjacency (addEdge fs cell g dep)) d =
           (if d = dep \<and> dep \<in> set (mapKeys fs) then setAdd (successors (adjacency g) d) cell
            else successors (adjacency g) d)"
  proof (cases "dep \<in> set (mapKeys fs)")
    case False
    then show ?thesis by (simp add: addEdge_def mapHas_iff)
  next
    case True
    with gk have "dep \<in> set (mapKeys (adjacency g))" by (simp add: graphKeys_def)
    then obtain succs where s: "mapGet (adjacency g) dep = Some succs"
      by (cases "map_of (adjacency g) dep") (auto simp: mapGet_def mapKeys_def map_of_eq_None_iff)
    with True show ?thesis
      by (simp add: addEdge_def mapHas_iff successors_mapSet) (simp add: successors_def)
  qed
  show "cnt (indegree (addEdge fs cell g dep)) c =
           (if c = cell \<and> dep \<in> set (mapKeys fs) then cnt (indegree g) c + 1
            else cnt (indegree g) c)"
    unfolding addEdge_def cnt_def [symmetric] by (simp add: mapHas_iff cnt_mapSet)
qed

lemma foldl_addEdge_props:
  assumes gk: "graphKeys fs g" and cell: "cell \<in> set (mapKeys fs)"
  shows "graphKeys fs (foldl (addEdge fs cell) g ds) \<and>
         (\<forall>d. set (successors (adjacency (foldl (addEdge fs cell) g ds)) d) =
               set (successors (adjacency g) d) \<union>
               (if d \<in> set ds \<and> d \<in> set (mapKeys fs) then {cell} else {})) \<and>
         (\<forall>d. distinct (successors (adjacency g) d) \<longrightarrow>
               distinct (successors (adjacency (foldl (addEdge fs cell) g ds)) d)) \<and>
         (\<forall>c. cnt (indegree (foldl (addEdge fs cell) g ds)) c =
               (if c = cell then cnt (indegree g) c + int (length (filter (\<lambda>d. d \<in> set (mapKeys fs)) ds))
                else cnt (indegree g) c))"
proof (induction ds rule: rev_induct)
  case Nil
  from gk show ?case by simp
next
  case (snoc x xs)
  let ?g = "foldl (addEdge fs cell) g xs"
  from snoc have gk': "graphKeys fs ?g" by blast
  note p = addEdge_props [OF gk' cell]
  show ?case
    using snoc by (auto simp: p setAdd_def)
qed

lemma mapSet_new: "k \<notin> set (mapKeys m) \<Longrightarrow> mapSet m k v = m @ [(k, v)]"
  by (induction m) (auto simp: mapKeys_def)

lemma initGraph_snoc:
  "initGraph (keys @ [k]) =
     \<lparr>adjacency = mapSet (adjacency (initGraph keys)) k [],
      indegree = mapSet (indegree (initGraph keys)) k 0\<rparr>"
  by (simp add: initGraph_def)

lemma initGraph_props:
  "distinct keys \<Longrightarrow>
   adjacency (initGraph keys) = map (\<lambda>k. (k, [])) keys \<and>
   indegree (initGraph keys) = map (\<lambda>k. (k, 0)) keys"
proof (induction keys rule: rev_induct)
  case Nil
  show ?case by (simp add: initGraph_def)
next
  case (snoc k keys)
  then have ih: "adjacency (initGraph keys) = map (\<lambda>k. (k, [])) keys"
    "indegree (initGraph keys) = map (\<lambda>k. (k, 0)) keys" and nk: "k \<notin> set keys" by simp_all
  have "k \<notin> set (mapKeys (adjacency (initGraph keys)))" "k \<notin> set (mapKeys (indegree (initGraph keys)))"
    using nk by (simp_all add: ih mapKeys_def comp_def)
  then show ?case by (simp add: initGraph_snoc mapSet_new ih)
qed

lemma successors_const: "successors (map (\<lambda>k. (k, [])) keys) d = []"
  by (induction keys) (auto simp: successors_def mapGet_def)

lemma cnt_const: "cnt (map (\<lambda>k. (k, 0)) keys) c = 0"
  by (induction keys) (auto simp: cnt_def mapGet_def)

lemma addEdges_snoc:
  "addEdges fs (deps @ [(cell, ds)]) g = foldl (addEdge fs cell) (addEdges fs deps g) ds"
  by (simp add: addEdges_def)

lemma addEdges_props:
  assumes gk: "graphKeys fs g"
  shows "(\<forall>(c, ds) \<in> set deps. c \<in> set (mapKeys fs)) \<Longrightarrow>
         graphKeys fs (addEdges fs deps g) \<and>
         (\<forall>d. set (successors (adjacency (addEdges fs deps g)) d) =
               set (successors (adjacency g) d) \<union>
               {c. \<exists>ds. (c, ds) \<in> set deps \<and> d \<in> set ds \<and> d \<in> set (mapKeys fs)}) \<and>
         (\<forall>d. distinct (successors (adjacency g) d) \<longrightarrow>
               distinct (successors (adjacency (addEdges fs deps g)) d)) \<and>
         (\<forall>c. cnt (indegree (addEdges fs deps g)) c =
               cnt (indegree g) c + edgeCount (set (mapKeys fs)) deps c)"
proof (induction deps rule: rev_induct)
  case Nil
  from gk show ?case by (simp add: addEdges_def edgeCount_def)
next
  case (snoc x deps)
  obtain cell ds where x: "x = (cell, ds)" by (cases x)
  let ?g = "addEdges fs deps g"
  from snoc.prems x have cell: "cell \<in> set (mapKeys fs)"
    and rest: "\<forall>(c, ds) \<in> set deps. c \<in> set (mapKeys fs)" by auto
  note ih = snoc.IH [OF rest]
  from ih have gk': "graphKeys fs ?g" by blast
  note p = foldl_addEdge_props [OF gk' cell, of ds]
  have a: "graphKeys fs (addEdges fs (deps @ [x]) g)"
    using p by (simp add: x addEdges_snoc)
  have b: "\<forall>d. set (successors (adjacency (addEdges fs (deps @ [x]) g)) d) =
               set (successors (adjacency g) d) \<union>
               {c. \<exists>ds. (c, ds) \<in> set (deps @ [x]) \<and> d \<in> set ds \<and> d \<in> set (mapKeys fs)}"
  proof
    fix d
    have "set (successors (adjacency (addEdges fs (deps @ [x]) g)) d) =
          set (successors (adjacency ?g) d) \<union> (if d \<in> set ds \<and> d \<in> set (mapKeys fs) then {cell} else {})"
      using p by (simp add: x addEdges_snoc)
    also have "set (successors (adjacency ?g) d) =
          set (successors (adjacency g) d) \<union>
               {c. \<exists>ds. (c, ds) \<in> set deps \<and> d \<in> set ds \<and> d \<in> set (mapKeys fs)}"
      using ih by blast
    finally show "set (successors (adjacency (addEdges fs (deps @ [x]) g)) d) =
               set (successors (adjacency g) d) \<union>
               {c. \<exists>ds. (c, ds) \<in> set (deps @ [x]) \<and> d \<in> set ds \<and> d \<in> set (mapKeys fs)}"
      by (auto simp: x)
  qed
  have c: "\<forall>d. distinct (successors (adjacency g) d) \<longrightarrow>
               distinct (successors (adjacency (addEdges fs (deps @ [x]) g)) d)"
    using p ih by (simp add: x addEdges_snoc)
  have d: "\<forall>c. cnt (indegree (addEdges fs (deps @ [x]) g)) c =
               cnt (indegree g) c + edgeCount (set (mapKeys fs)) (deps @ [x]) c"
  proof
    fix c
    have "cnt (indegree (addEdges fs (deps @ [x]) g)) c =
          (if c = cell then cnt (indegree ?g) c + int (length (filter (\<lambda>d. d \<in> set (mapKeys fs)) ds))
           else cnt (indegree ?g) c)"
      using p by (simp add: x addEdges_snoc)
    moreover have "cnt (indegree ?g) c = cnt (indegree g) c + edgeCount (set (mapKeys fs)) deps c"
      using ih by blast
    ultimately show "cnt (indegree (addEdges fs (deps @ [x]) g)) c =
               cnt (indegree g) c + edgeCount (set (mapKeys fs)) (deps @ [x]) c"
      by (cases "c = cell") (simp_all add: edgeCount_def x)
  qed
  from a b c d show ?case by blast
qed

lemma edgeCount_notin: "c \<notin> set (mapKeys deps) \<Longrightarrow> edgeCount F deps c = 0"
  by (induction deps) (auto simp: edgeCount_def mapKeys_def)

lemma edgeCount_distinct:
  "distinct (mapKeys deps) \<Longrightarrow>
   edgeCount F deps c = int (length (filter (\<lambda>d. d \<in> F) (successors deps c)))"
proof (induction deps)
  case Nil
  show ?case by (simp add: edgeCount_def successors_def mapGet_def)
next
  case (Cons x deps)
  obtain c' ds where x: "x = (c', ds)" by (cases x)
  from Cons.prems x have d: "distinct (mapKeys deps)" and n: "c' \<notin> set (mapKeys deps)"
    by (simp_all add: mapKeys_def)
  have e: "edgeCount F (x # deps) c =
        (if c' = c then int (length (filter (\<lambda>d. d \<in> F) ds)) else 0) + edgeCount F deps c"
    by (simp add: edgeCount_def x)
  show ?case
  proof (cases "c' = c")
    case True
    with n have "edgeCount F deps c = 0" by (simp add: edgeCount_notin)
    with True e show ?thesis by (simp add: x successors_def mapGet_def)
  next
    case False
    with e Cons.IH [OF d] show ?thesis by (simp add: x successors_def mapGet_def)
  qed
qed

lemma successors_mem: "c \<in> set (successors deps k) \<Longrightarrow> \<exists>ds. (k, ds) \<in> set deps \<and> c \<in> set ds"
  by (cases "map_of deps k") (auto simp: successors_def mapGet_def dest: map_of_SomeD)

lemma successors_distinct_keys:
  "distinct (mapKeys deps) \<Longrightarrow> (k, ds) \<in> set deps \<Longrightarrow> successors deps k = ds"
  by (simp add: successors_def mapGet_def mapKeys_def)

lemma preds_edgeRel: "preds adj c = {d. (d, c) \<in> edgeRel adj}"
  by (auto simp: preds_def edgeRel_def)

lemma kahnFinal_pred_closed:
  assumes fin: "kahnFinal adj out" and wf: "wellFormedAdj adj"
    and e: "(d, c) \<in> edgeRel adj" and c: "c \<in> set out"
  shows "d \<in> set out"
proof -
  from fin c have "c \<in> set (mapKeys adj)" by (auto simp: kahnFinal_def)
  with fin c have "preds adj c \<subseteq> set out" unfolding kahnFinal_def by blast
  with e show ?thesis by (auto simp: preds_edgeRel)
qed

lemma kahnFinal_rtrancl_closed:
  assumes fin: "kahnFinal adj out" and wf: "wellFormedAdj adj"
  shows "(d, c) \<in> (edgeRel adj)\<^sup>* \<Longrightarrow> c \<in> set out \<Longrightarrow> d \<in> set out"
  by (induction rule: converse_rtrancl_induct)
     (auto intro: kahnFinal_pred_closed [OF fin wf])

lemma kahnFinal_earlier:
  assumes fin: "kahnFinal adj out"
  shows "(d, c) \<in> (edgeRel adj)\<^sup>+ \<Longrightarrow> \<forall>i < length out. out ! i = c \<longrightarrow> (\<exists>j < i. out ! j = d)"
proof (induction rule: trancl_induct)
  case (base y)
  show ?case
  proof (intro allI impI)
    fix i assume i: "i < length out" and y: "out ! i = y"
    from fin i have "preds adj (out ! i) \<subseteq> set (take i out)"
      by (simp add: kahnFinal_def topological_def)
    with base y have "d \<in> set (take i out)" by (auto simp: preds_edgeRel)
    then obtain j where "j < length (take i out)" "take i out ! j = d"
      by (auto simp: in_set_conv_nth)
    with i show "\<exists>j < i. out ! j = d" by auto
  qed
next
  case (step y z)
  show ?case
  proof (intro allI impI)
    fix i assume i: "i < length out" and z: "out ! i = z"
    from fin i have "preds adj (out ! i) \<subseteq> set (take i out)"
      by (simp add: kahnFinal_def topological_def)
    with step(2) z have "y \<in> set (take i out)" by (auto simp: preds_edgeRel)
    then obtain j where j: "j < length (take i out)" "take i out ! j = y"
      by (auto simp: in_set_conv_nth)
    with i have j': "j < i" "j < length out" "out ! j = y" by auto
    with step.IH obtain k where "k < j" "out ! k = d" by blast
    with j' show "\<exists>j < i. out ! j = d" by (intro exI [of _ k]) simp
  qed
qed

lemma kahnFinal_no_cycle:
  assumes fin: "kahnFinal adj out" and wf: "wellFormedAdj adj"
    and cyc: "(x, x) \<in> (edgeRel adj)\<^sup>+" and reach: "(x, c) \<in> (edgeRel adj)\<^sup>*"
  shows "c \<notin> set out"
proof
  assume "c \<in> set out"
  with reach have "x \<in> set out" by (rule kahnFinal_rtrancl_closed [OF fin wf])
  then obtain i where i: "i < length out" "out ! i = x" by (auto simp: in_set_conv_nth)
  with kahnFinal_earlier [OF fin cyc] obtain j where j: "j < i" "out ! j = x" by blast
  from fin have "distinct out" by (simp add: kahnFinal_def)
  with i j show False by (auto simp: distinct_conv_nth)
qed

lemma kahnFinal_left_out:
  assumes fin: "kahnFinal adj out" and wf: "wellFormedAdj adj"
    and c: "c \<in> set (mapKeys adj)" and nc: "c \<notin> set out"
  shows "\<exists>x. (x, x) \<in> (edgeRel adj)\<^sup>+ \<and> (x, c) \<in> (edgeRel adj)\<^sup>*"
proof -
  let ?U = "set (mapKeys adj) - set out"
  let ?R = "{(d, u). (d, u) \<in> edgeRel adj \<and> d \<in> ?U \<and> u \<in> ?U}"
  let ?A = "{a. (a, c) \<in> ?R\<^sup>*} \<inter> ?U"
  let ?RA = "{(d, u). (d, u) \<in> ?R \<and> d \<in> ?A \<and> u \<in> ?A}"
  have pred: "\<And>u. u \<in> ?U \<Longrightarrow> \<exists>d. (d, u) \<in> ?R"
  proof -
    fix u assume u: "u \<in> ?U"
    with fin have "\<not> preds adj u \<subseteq> set out" unfolding kahnFinal_def by blast
    then obtain d where d: "d \<in> preds adj u" "d \<notin> set out" by blast
    then have "(d, u) \<in> edgeRel adj" "d \<in> set (mapKeys adj)"
      by (auto simp: preds_def edgeRel_def)
    with d u show "\<exists>d. (d, u) \<in> ?R" by blast
  qed
  have cA: "c \<in> ?A" using c nc by simp
  have predA: "\<And>a. a \<in> ?A \<Longrightarrow> \<exists>d. (d, a) \<in> ?RA"
  proof -
    fix a assume a: "a \<in> ?A"
    then have aU: "a \<in> ?U" and ac: "(a, c) \<in> ?R\<^sup>*" by simp_all
    from pred [OF aU] obtain d where d: "(d, a) \<in> ?R" by blast
    from d ac have "(d, c) \<in> ?R\<^sup>*" by (rule converse_rtrancl_into_rtrancl)
    moreover from d have "d \<in> ?U" by simp
    ultimately have "d \<in> ?A" by simp
    with d a show "\<exists>d. (d, a) \<in> ?RA" by blast
  qed
  have finRA: "finite ?RA"
  proof (rule finite_subset)
    show "?RA \<subseteq> set (mapKeys adj) \<times> set (mapKeys adj)" by auto
    show "finite (set (mapKeys adj) \<times> set (mapKeys adj))" by simp
  qed
  have "\<not> acyclic ?RA"
  proof
    assume "acyclic ?RA"
    with finRA have "wf ?RA" by (rule finite_acyclic_wf)
    from wfE_min [OF this cA] obtain m where m: "m \<in> ?A" "\<And>y. (y, m) \<in> ?RA \<Longrightarrow> y \<notin> ?A"
      by blast
    from predA [OF m(1)] obtain d where d: "(d, m) \<in> ?RA" by blast
    then have "d \<in> ?A" by simp
    with m(2) [OF d] show False by simp
  qed
  then obtain x where x: "(x, x) \<in> ?RA\<^sup>+" by (auto simp: acyclic_def)
  have sub1: "?RA \<subseteq> edgeRel adj" by auto
  have sub2: "?R \<subseteq> edgeRel adj" by auto
  from x have xe: "(x, x) \<in> (edgeRel adj)\<^sup>+" using trancl_mono [OF _ sub1] by blast
  from x have "x \<in> ?A" by (induction rule: trancl_induct) auto
  then have "(x, c) \<in> ?R\<^sup>*" by simp
  then have "(x, c) \<in> (edgeRel adj)\<^sup>*" using rtrancl_mono [OF sub2] by blast
  with xe show ?thesis by blast
qed

lemma initialQueue_set:
  "distinct (mapKeys ind) \<Longrightarrow>
   set (initialQueue ind) = {c \<in> set (mapKeys ind). cnt ind c = 0}"
proof -
  assume d: "distinct (mapKeys ind)"
  have "\<And>c v. (c, v) \<in> set ind \<Longrightarrow> cnt ind c = v"
    using d by (simp add: cnt_def mapGet_def mapKeys_def)
  then show ?thesis
    by (force simp: initialQueue_def mapKeys_def)
qed

lemma initialQueue_distinct: "distinct (mapKeys ind) \<Longrightarrow> distinct (initialQueue ind)"
  by (simp add: initialQueue_def mapKeys_def distinct_map_filter)

lemma schedule_graph:
  fixes fs :: "('k \<times> 'a) list" and deps :: "('k \<times> 'k list) list"
  assumes dk: "distinct (mapKeys fs)" and same: "mapKeys deps = mapKeys fs"
    and dd: "\<And>c. distinct (successors deps c)"
    and g: "g = addEdges fs deps (initGraph (mapKeys fs))"
  shows "mapKeys (adjacency g) = mapKeys fs"
    and "edgeRel (adjacency g) = {(d, c). d \<in> set (mapKeys fs) \<and> d \<in> set (successors deps c)}"
    and "wellFormedAdj (adjacency g)"
    and "kahnInv (adjacency g) (initialQueue (indegree g)) [] (indegree g)"
proof -
  let ?F = "set (mapKeys fs)"
  let ?g0 = "initGraph (mapKeys fs) :: 'k Graph"
  note ig = initGraph_props [OF dk]
  have gk0: "graphKeys fs ?g0"
    unfolding graphKeys_def by (simp only: ig) (simp add: mapKeys_def comp_def)
  have cells: "\<forall>(c, ds) \<in> set deps. c \<in> ?F"
  proof (clarify)
    fix c ds assume "(c, ds) \<in> set deps"
    then have "c \<in> set (mapKeys deps)" by (force simp: mapKeys_def)
    with same show "c \<in> ?F" by simp
  qed
  note p = addEdges_props [OF gk0 cells]
  from p have gk: "graphKeys fs g" unfolding g by blast
  then show keys: "mapKeys (adjacency g) = mapKeys fs" by (simp add: graphKeys_def)
  from gk have ikeys: "mapKeys (indegree g) = mapKeys fs" by (simp add: graphKeys_def)
  have ddeps: "distinct (mapKeys deps)" using dk same by simp
  have succ: "\<And>d c. c \<in> set (successors (adjacency g) d) \<longleftrightarrow> d \<in> ?F \<and> d \<in> set (successors deps c)"
  proof -
    fix d c
    have "set (successors (adjacency g) d) =
          {c. \<exists>ds. (c, ds) \<in> set deps \<and> d \<in> set ds \<and> d \<in> ?F}"
      using p unfolding g by (simp add: ig successors_const)
    moreover have "(\<exists>ds. (c, ds) \<in> set deps \<and> d \<in> set ds) \<longleftrightarrow> d \<in> set (successors deps c)"
      using successors_distinct_keys [OF ddeps] successors_mem [of d deps c] by auto
    ultimately show "c \<in> set (successors (adjacency g) d) \<longleftrightarrow> d \<in> ?F \<and> d \<in> set (successors deps c)"
      by auto
  qed
  show er: "edgeRel (adjacency g) = {(d, c). d \<in> ?F \<and> d \<in> set (successors deps c)}"
    by (auto simp: edgeRel_def keys succ)
  have dist: "\<And>d. distinct (successors (adjacency g) d)"
    using p unfolding g by (simp add: ig successors_const)
  have sub: "\<And>d. set (successors (adjacency g) d) \<subseteq> ?F"
  proof
    fix d c assume "c \<in> set (successors (adjacency g) d)"
    then have "d \<in> set (successors deps c)" by (simp add: succ)
    then have "c \<in> set (mapKeys deps)"
      using successors_notin [of c deps] by (cases "c \<in> set (mapKeys deps)") auto
    with same show "c \<in> ?F" by simp
  qed
  show wf: "wellFormedAdj (adjacency g)"
    unfolding wellFormedAdj_def keys using dist sub by blast
  have cntg: "\<And>c. cnt (indegree g) c = int (length (filter (\<lambda>d. d \<in> ?F) (successors deps c)))"
    using p unfolding g by (simp add: ig cnt_const edgeCount_distinct [OF ddeps])
  have pr: "\<And>c. preds (adjacency g) c = set (filter (\<lambda>d. d \<in> ?F) (successors deps c))"
    by (auto simp: preds_edgeRel er)
  have card: "\<And>c. cnt (indegree g) c = int (card (preds (adjacency g) c))"
  proof -
    fix c
    have "distinct (filter (\<lambda>d. d \<in> ?F) (successors deps c))" using dd by simp
    from distinct_card [OF this] show "cnt (indegree g) c = int (card (preds (adjacency g) c))"
      unfolding pr cntg by simp
  qed
  have zero: "\<And>c. cnt (indegree g) c = 0 \<longleftrightarrow> preds (adjacency g) c = {}"
    unfolding card using finite_preds [of "adjacency g"] by (simp add: card_eq_0_iff)
  have di: "distinct (mapKeys (indegree g))" using ikeys dk by simp
  show "kahnInv (adjacency g) (initialQueue (indegree g)) [] (indegree g)"
    unfolding kahnInv_def
    using initialQueue_distinct [OF di] initialQueue_set [OF di] ikeys keys card zero
    by (auto simp: topological_def)
qed


section \<open>The display map\<close>

subsection \<open>Vocabulary\<close>

text \<open>
  \<open>parsedAst\<close> is what the first loop of \<open>calculateDisplayCells\<close> gets from a formula
  text: the tree, or nothing when \<open>!result.ok || !result.ast\<close>. \<open>stepValue\<close> is the
  value one turn of the evaluation loop stores, and \<open>cellDisplay\<close> the string a cell
  ends up with.
\<close>

definition parsedAst :: "'n NumberOps \<Rightarrow> string \<Rightarrow> 'n FormulaNode option" where
  "parsedAst N v = (let result = parseFormula N (tokenize (tl v)) in
                    if \<not> ok result then None else ast result)"

definition isFormulaOk :: "'n NumberOps \<Rightarrow> CellKey \<times> string \<Rightarrow> bool" where
  "isFormulaOk N kv = (startsWithEq (snd kv) \<and> parsedAst N (snd kv) \<noteq> None)"

definition isFormulaBad :: "'n NumberOps \<Rightarrow> CellKey \<times> string \<Rightarrow> bool" where
  "isFormulaBad N kv = (startsWithEq (snd kv) \<and> parsedAst N (snd kv) = None)"

definition isLiteral :: "CellKey \<times> string \<Rightarrow> bool" where
  "isLiteral kv = (\<not> startsWithEq (snd kv))"

definition parsedInv :: "'n NumberOps \<Rightarrow> (CellKey \<times> string) list \<Rightarrow> 'n Parsed \<Rightarrow> bool" where
  "parsedInv N cells st =
     (display st = filter isLiteral cells \<and>
      mapKeys (formulas st) = map fst (filter (isFormulaOk N) cells) \<and>
      formulaErrors st = map fst (filter (isFormulaBad N) cells) \<and>
      dependencies st = map (\<lambda>(k, a). (k, collectDependencies a [])) (formulas st) \<and>
      (\<forall>k a. (k, a) \<in> set (formulas st) \<longleftrightarrow>
               (\<exists>v. (k, v) \<in> set cells \<and> startsWithEq v \<and> parsedAst N v = Some a)))"

definition stepValue ::
  "'n NumberOps \<Rightarrow> 'n Parsed \<Rightarrow> (CellKey \<times> string) list \<Rightarrow> (CellKey \<times> 'n FormulaValue) list
     \<Rightarrow> CellKey \<Rightarrow> 'n FormulaValue" where
  "stepValue N st cells computed key =
     (if key \<in> set (formulaErrors st) then Str ''#ERROR''
      else (case mapGet (formulas st) key of
              None \<Rightarrow> Str ''#ERROR''
            | Some a \<Rightarrow> asFormulaValue (evaluateNode N a (getCellValue computed (display st) cells))))"

definition cellDisplay ::
  "'n NumberOps \<Rightarrow> (CellKey \<times> string) list \<Rightarrow> CellKey \<Rightarrow> string \<Rightarrow> string" where
  "cellDisplay N cells k v =
     (let st = parseCells N cells; ordered = scheduleOrder st in
      if \<not> startsWithEq v then v
      else (case parsedAst N v of
              None \<Rightarrow> ''#ERROR''
            | Some a \<Rightarrow>
                if k \<in> set ordered then
                  formatValue N (asFormulaValue (evaluateNode N a
                    (getCellValue (evaluateAll N st cells (takeWhile (\<lambda>x. x \<noteq> k) ordered))
                       (display st) cells)))
                else ''#CYCLE''))"

subsection \<open>The passes, one by one\<close>

lemma parseCells_snoc: "parseCells N (cells @ [kv]) = parseCell N (parseCells N cells) kv"
  by (simp add: parseCells_def)

lemma distinct_mapSet: "distinct (mapKeys m) \<Longrightarrow> distinct (mapKeys (mapSet m k v))"
  by (simp add: mapKeys_mapSet)

lemma distinct_setAdd: "distinct s \<Longrightarrow> distinct (setAdd s x)"
  by (simp add: setAdd_def)

lemma set_setAdd: "set (setAdd s x) = insert x (set s)"
  by (auto simp: setAdd_def)

lemma isLiteral_pair: "isLiteral (k, v) = (\<not> startsWithEq v)"
  by (simp add: isLiteral_def)

lemma isFormulaOk_pair: "isFormulaOk N (k, v) = (startsWithEq v \<and> parsedAst N v \<noteq> None)"
  by (simp add: isFormulaOk_def)

lemma isFormulaBad_pair: "isFormulaBad N (k, v) = (startsWithEq v \<and> parsedAst N v = None)"
  by (simp add: isFormulaBad_def)

lemma parseCell_cases:
  "parseCell N st (key, v) =
     (if \<not> startsWithEq v then st\<lparr>display := mapSet (display st) key v\<rparr>
      else (case parsedAst N v of
              None \<Rightarrow> st\<lparr>formulaErrors := setAdd (formulaErrors st) key\<rparr>
            | Some a \<Rightarrow> st\<lparr>formulas := mapSet (formulas st) key a,
                             dependencies := mapSet (dependencies st) key (collectDependencies a [])\<rparr>))"
  by (simp add: parseCell_def parsedAst_def Let_def)

lemma parseCells_props:
  "distinct (map fst cells) \<Longrightarrow> parsedInv N cells (parseCells N cells)"
proof (induction cells rule: rev_induct)
  case Nil
  show ?case by (simp add: parseCells_def parsedInv_def mapKeys_def)
next
  case (snoc kv cells)
  obtain key v where kv: "kv = (key, v)" by (cases kv)
  let ?st = "parseCells N cells"
  from snoc.prems have dc: "distinct (map fst cells)" and fresh: "key \<notin> fst ` set cells"
    by (simp_all add: kv)
  from snoc.IH [OF dc] have
    disp: "display ?st = filter isLiteral cells" and
    ks: "mapKeys (formulas ?st) = map fst (filter (isFormulaOk N) cells)" and
    es: "formulaErrors ?st = map fst (filter (isFormulaBad N) cells)" and
    ds: "dependencies ?st = map (\<lambda>(k, a). (k, collectDependencies a [])) (formulas ?st)" and
    fs: "\<And>k a. (k, a) \<in> set (formulas ?st) \<longleftrightarrow>
               (\<exists>v. (k, v) \<in> set cells \<and> startsWithEq v \<and> parsedAst N v = Some a)"
    unfolding parsedInv_def by blast+
  have n1: "key \<notin> set (mapKeys (display ?st))" using fresh by (auto simp: disp mapKeys_def)
  have n2: "key \<notin> set (mapKeys (formulas ?st))" using fresh by (auto simp: ks)
  have n3: "key \<notin> set (formulaErrors ?st)" using fresh by (auto simp: es)
  have n4: "key \<notin> set (mapKeys (dependencies ?st))"
    using n2 by (simp add: ds mapKeys_def comp_def case_prod_beta)
  show ?case
  proof (cases "startsWithEq v")
    case False
    then have st': "parseCells N (cells @ [kv]) = ?st\<lparr>display := display ?st @ [(key, v)]\<rparr>"
      using n1 by (simp add: parseCells_snoc kv parseCell_cases mapSet_new)
    show ?thesis
      unfolding parsedInv_def st' using False
      by (auto simp: disp ks es ds fs kv isLiteral_pair isFormulaOk_pair isFormulaBad_pair)
  next
    case True
    show ?thesis
    proof (cases "parsedAst N v")
      case None
      then have st': "parseCells N (cells @ [kv]) = ?st\<lparr>formulaErrors := formulaErrors ?st @ [key]\<rparr>"
        using n3 True by (simp add: parseCells_snoc kv parseCell_cases setAdd_def)
      show ?thesis
        unfolding parsedInv_def st' using True None
        by (auto simp: disp ks es ds fs kv isLiteral_pair isFormulaOk_pair isFormulaBad_pair)
    next
      case (Some a)
      then have st': "parseCells N (cells @ [kv]) =
          ?st\<lparr>formulas := formulas ?st @ [(key, a)],
               dependencies := dependencies ?st @ [(key, collectDependencies a [])]\<rparr>"
        using n2 n4 True by (simp add: parseCells_snoc kv parseCell_cases mapSet_new)
      show ?thesis
        unfolding parsedInv_def st' using True Some
        by (auto simp: disp ks [unfolded mapKeys_def] es ds fs kv isLiteral_pair isFormulaOk_pair
                 isFormulaBad_pair mapKeys_def)
    qed
  qed
qed

lemma distinct_fold_setAdd: "distinct d \<Longrightarrow> distinct (fold (\<lambda>key d. setAdd d key) ks d)"
  by (induction ks arbitrary: d) (simp_all add: distinct_setAdd)

lemma distinct_collectDependencies:
  "distinct deps \<Longrightarrow> distinct (collectDependencies node deps)"
proof (induction node deps rule: collectDependencies.induct)
  case (5 name args deps)
  have "\<And>d. set as \<subseteq> set args \<Longrightarrow> distinct d \<Longrightarrow>
          distinct (fold (\<lambda>arg d. collectDependencies arg d) as d)" for as
  proof (induction as)
    case Nil
    then show ?case by simp
  next
    case (Cons a as)
    then show ?case using 5(1) [of a d] by simp
  qed
  with 5(2) show ?case by simp
qed (simp_all add: distinct_setAdd distinct_fold_setAdd split: option.splits)

lemma schedule_final:
  assumes d: "distinct (map fst cells)" and st: "st = parseCells N cells"
    and g: "g = addEdges (formulas st) (dependencies st) (initGraph (mapKeys (formulas st)))"
  shows "kahnFinal (adjacency g) (scheduleOrder st)"
    and "wellFormedAdj (adjacency g)"
    and "mapKeys (adjacency g) = mapKeys (formulas st)"
    and "edgeRel (adjacency g) =
           {(d, c). d \<in> set (mapKeys (formulas st)) \<and> d \<in> set (successors (dependencies st) c)}"
proof -
  from parseCells_props [OF d, of N] have inv: "parsedInv N cells st" by (simp add: st)
  then have ks: "mapKeys (formulas st) = map fst (filter (isFormulaOk N) cells)"
    and ds: "dependencies st = map (\<lambda>(k, a). (k, collectDependencies a [])) (formulas st)"
    unfolding parsedInv_def by blast+
  have dk: "distinct (mapKeys (formulas st))" unfolding ks using d by (rule distinct_map_filter)
  have same: "mapKeys (dependencies st) = mapKeys (formulas st)"
    by (simp add: ds mapKeys_def comp_def case_prod_beta)
  have dd: "\<And>c. distinct (successors (dependencies st) c)"
  proof -
    fix c
    show "distinct (successors (dependencies st) c)"
    proof (cases "map_of (dependencies st) c")
      case None
      then show ?thesis by (simp add: successors_def mapGet_def)
    next
      case (Some deps)
      then have "(c, deps) \<in> set (dependencies st)" by (rule map_of_SomeD)
      then have "distinct deps" by (auto simp: ds distinct_collectDependencies)
      with Some show ?thesis
        by (simp add: successors_def mapGet_def)
    qed
  qed
  note sg = schedule_graph [OF dk same dd g]
  show "wellFormedAdj (adjacency g)" by (rule sg(3))
  show "mapKeys (adjacency g) = mapKeys (formulas st)" by (rule sg(1))
  show "edgeRel (adjacency g) =
           {(d, c). d \<in> set (mapKeys (formulas st)) \<and> d \<in> set (successors (dependencies st) c)}"
    by (rule sg(2))
  have "scheduleOrder st = kahnLoop (adjacency g) (initialQueue (indegree g)) [] (indegree g)"
    by (simp add: scheduleOrder_def g Let_def)
  with kahnLoop_final [OF sg(3) sg(4)] show "kahnFinal (adjacency g) (scheduleOrder st)" by simp
qed

lemma evaluateStep_eq:
  "evaluateStep N st cells computed key = mapSet computed key (stepValue N st cells computed key)"
  by (simp add: evaluateStep_def stepValue_def split: option.splits)

lemma evaluateAll_snoc:
  "evaluateAll N st cells (xs @ [x]) =
     mapSet (evaluateAll N st cells xs) x (stepValue N st cells (evaluateAll N st cells xs) x)"
  by (simp add: evaluateAll_def evaluateStep_eq)

lemma evaluateAll_keys: "set (mapKeys (evaluateAll N st cells xs)) = set xs"
  by (induction xs rule: rev_induct)
     (auto simp: evaluateAll_snoc mapKeys_mapSet, simp add: evaluateAll_def mapKeys_def)

lemma evaluateAll_distinct: "distinct (mapKeys (evaluateAll N st cells xs))"
  by (induction xs rule: rev_induct)
     (simp add: evaluateAll_def mapKeys_def, simp add: evaluateAll_snoc distinct_mapSet)

lemma mapGet_None_iff: "mapGet m k = None \<longleftrightarrow> k \<notin> set (mapKeys m)"
  by (simp add: mapGet_def mapKeys_def map_of_eq_None_iff)

lemma takeWhile_neq_snoc: "k \<notin> set xs \<Longrightarrow> takeWhile (\<lambda>y. y \<noteq> k) (xs @ [k]) = xs"
  by (induction xs) auto

lemma evaluateAll_lookup:
  "distinct xs \<Longrightarrow> k \<in> set xs \<Longrightarrow>
   map_of (evaluateAll N st cells xs) k =
     Some (stepValue N st cells (evaluateAll N st cells (takeWhile (\<lambda>x. x \<noteq> k) xs)) k)"
proof (induction xs rule: rev_induct)
  case Nil
  then show ?case by simp
next
  case (snoc x xs)
  show ?case
  proof (cases "k = x")
    case True
    with snoc.prems have "k \<notin> set xs" by simp
    then have "takeWhile (\<lambda>y. y \<noteq> k) (xs @ [x]) = xs" using True
      by (simp add: takeWhile_neq_snoc)
    with True show ?thesis by (simp add: evaluateAll_snoc map_of_mapSet)
  next
    case False
    with snoc.prems have kx: "k \<in> set xs" and d: "distinct xs" by simp_all
    have "takeWhile (\<lambda>y. y \<noteq> k) (xs @ [x]) = takeWhile (\<lambda>y. y \<noteq> k) xs"
      using kx by (simp add: takeWhile_append1)
    with snoc.IH [OF d kx] False show ?thesis by (simp add: evaluateAll_snoc map_of_mapSet)
  qed
qed

lemma markCycles_Cons:
  "markCycles (x # keys) c =
     markCycles keys (if map_of c x = None then mapSet c x (Str ''#CYCLE'') else c)"
  by (simp add: markCycles_def mapHas_def)

lemma markCycles_lookup:
  "map_of (markCycles keys c) k =
     (case map_of c k of
        Some v \<Rightarrow> Some v
      | None \<Rightarrow> if k \<in> set keys then Some (Str ''#CYCLE'') else None)"
proof (induction keys arbitrary: c)
  case Nil
  show ?case by (simp add: markCycles_def split: option.splits)
next
  case (Cons x keys)
  show ?case
    unfolding markCycles_Cons Cons.IH
    by (auto simp: map_of_mapSet split: option.splits)
qed

lemma markCycles_distinct: "distinct (mapKeys c) \<Longrightarrow> distinct (mapKeys (markCycles keys c))"
proof (induction keys arbitrary: c)
  case Nil
  then show ?case by (simp add: markCycles_def)
next
  case (Cons x keys)
  then show ?case unfolding markCycles_Cons by (simp add: distinct_mapSet)
qed

lemma formatAll_snoc:
  "formatAll N d (c @ [(k, v)]) = mapSet (formatAll N d c) k (formatValue N v)"
  by (simp add: formatAll_def)

lemma formatAll_lookup:
  "distinct (mapKeys c) \<Longrightarrow>
   map_of (formatAll N d c) k =
     (case map_of c k of Some v \<Rightarrow> Some (formatValue N v) | None \<Rightarrow> map_of d k)"
proof (induction c rule: rev_induct)
  case Nil
  show ?case by (simp add: formatAll_def)
next
  case (snoc x c)
  obtain k' v' where x: "x = (k', v')" by (cases x)
  from snoc.prems x have d: "distinct (mapKeys c)" and n: "k' \<notin> set (mapKeys c)"
    by (simp_all add: mapKeys_def)
  from n have none: "map_of c k' = None" by (simp add: mapKeys_def map_of_eq_None_iff)
  show ?case
    using snoc.IH [OF d] none
    by (auto simp: x formatAll_snoc map_of_mapSet split: option.splits)
qed


lemma markErrors_Cons:
  "markErrors d (x # errs) =
     markErrors (if map_of d x = None then mapSet d x ''#ERROR'' else d) errs"
  by (simp add: markErrors_def mapHas_def)

lemma markErrors_lookup:
  "map_of (markErrors d errs) k =
     (case map_of d k of
        Some v \<Rightarrow> Some v
      | None \<Rightarrow> if k \<in> set errs then Some ''#ERROR'' else None)"
proof (induction errs arbitrary: d)
  case Nil
  show ?case by (simp add: markErrors_def split: option.splits)
next
  case (Cons x errs)
  show ?case
    unfolding markErrors_Cons Cons.IH
    by (auto simp: map_of_mapSet split: option.splits)
qed


lemma map_of_filter_distinct:
  "distinct (map fst cells) \<Longrightarrow> (k, v) \<in> set cells \<Longrightarrow>
   map_of (filter P cells) k = (if P (k, v) then Some v else None)"
proof (induction cells)
  case Nil
  then show ?case by simp
next
  case (Cons x cells)
  obtain a b where x: "x = (a, b)" by (cases x)
  from Cons.prems x have na: "a \<notin> fst ` set cells" and dc: "distinct (map fst cells)" by simp_all
  show ?case
  proof (cases "(k, v) = (a, b)")
    case True
    from na have "a \<notin> fst ` set (filter P cells)" by auto
    then have "map_of (filter P cells) a = None" by (rule map_of_eq_None_iff [THEN iffD2])
    with True show ?thesis by (simp add: x)
  next
    case False
    with Cons.prems x have kv: "(k, v) \<in> set cells" by auto
    then have "k \<in> fst ` set cells" by force
    with na have "k \<noteq> a" by auto
    with Cons.IH [OF dc kv] show ?thesis by (simp add: x)
  qed
qed

lemma key_filter_distinct:
  "distinct (map fst cells) \<Longrightarrow> (k, v) \<in> set cells \<Longrightarrow>
   k \<in> fst ` {x \<in> set cells. P x} \<longleftrightarrow> P (k, v)"
proof
  assume d: "distinct (map fst cells)" and kv: "(k, v) \<in> set cells"
  { assume "k \<in> fst ` {x \<in> set cells. P x}"
    then obtain v' where v': "(k, v') \<in> set cells" "P (k, v')" by auto
    from eq_key_imp_eq_value [OF d kv v'(1)] v'(2) show "P (k, v)" by simp }
  { assume "P (k, v)"
    with kv show "k \<in> fst ` {x \<in> set cells. P x}" by force }
qed

lemma display_lookup:
  assumes d: "distinct (map fst cells)"
  shows "map_of (calculateDisplayCells N cells) k = map_option (cellDisplay N cells k) (map_of cells k)"
proof -
  define st where "st = parseCells N cells"
  define g where "g = addEdges (formulas st) (dependencies st) (initGraph (mapKeys (formulas st)))"
  define ordered where "ordered = scheduleOrder st"
  define comp0 where "comp0 = evaluateAll N st cells ordered"
  define comp where "comp = markCycles (mapKeys (formulas st)) comp0"
  define d1 where "d1 = formatAll N (display st) comp"
  have res: "calculateDisplayCells N cells = markErrors d1 (formulaErrors st)"
    by (simp add: calculateDisplayCells_def Let_def st_def ordered_def comp0_def comp_def d1_def)
  from parseCells_props [OF d, of N] have inv: "parsedInv N cells st" by (simp add: st_def)
  then have disp: "display st = filter isLiteral cells"
    and ks: "mapKeys (formulas st) = map fst (filter (isFormulaOk N) cells)"
    and es: "formulaErrors st = map fst (filter (isFormulaBad N) cells)"
    and fs: "\<And>k a. (k, a) \<in> set (formulas st) \<longleftrightarrow>
               (\<exists>v. (k, v) \<in> set cells \<and> startsWithEq v \<and> parsedAst N v = Some a)"
    unfolding parsedInv_def by blast+
  note sf = schedule_final [OF d st_def g_def]
  from sf(1) sf(3) have od: "distinct ordered" and os: "set ordered \<subseteq> set (mapKeys (formulas st))"
    by (simp_all add: kahnFinal_def ordered_def)
  have dcomp: "distinct (mapKeys comp)"
    unfolding comp_def comp0_def by (intro markCycles_distinct evaluateAll_distinct)
  have l0: "map_of comp0 k =
      (if k \<in> set ordered
       then Some (stepValue N st cells (evaluateAll N st cells (takeWhile (\<lambda>x. x \<noteq> k) ordered)) k)
       else None)"
  proof (cases "k \<in> set ordered")
    case True
    with evaluateAll_lookup [OF od True] show ?thesis by (simp add: comp0_def)
  next
    case False
    then have "k \<notin> set (mapKeys comp0)" by (simp add: comp0_def evaluateAll_keys)
    with False show ?thesis by (simp add: mapKeys_def map_of_eq_None_iff)
  qed
  have l1: "map_of comp k =
      (case map_of comp0 k of
         Some v \<Rightarrow> Some v
       | None \<Rightarrow> if k \<in> set (mapKeys (formulas st)) then Some (Str ''#CYCLE'') else None)"
    by (simp add: comp_def markCycles_lookup)
  have l2: "map_of d1 k =
      (case map_of comp k of Some v \<Rightarrow> Some (formatValue N v) | None \<Rightarrow> map_of (display st) k)"
    by (simp add: d1_def formatAll_lookup [OF dcomp])
  have l3: "map_of (calculateDisplayCells N cells) k =
      (case map_of d1 k of
         Some v \<Rightarrow> Some v
       | None \<Rightarrow> if k \<in> set (formulaErrors st) then Some ''#ERROR'' else None)"
    by (simp add: res markErrors_lookup)
  show ?thesis
  proof (cases "map_of cells k")
    case None
    then have nk: "k \<notin> fst ` set cells" by (simp add: map_of_eq_None_iff)
    then have "k \<notin> set (mapKeys (formulas st))" "k \<notin> set (formulaErrors st)"
      "map_of (display st) k = None"
      by (auto simp: ks es disp map_of_eq_None_iff)
    with os None show ?thesis by (auto simp: l3 l2 l1 l0)
  next
    case cv: (Some v)
    then have kv: "(k, v) \<in> set cells" by (rule map_of_SomeD)
    note kf = key_filter_distinct [OF d kv]
    note mf = map_of_filter_distinct [OF d kv]
    show ?thesis
    proof (cases "startsWithEq v")
      case False
      then have "k \<notin> set (mapKeys (formulas st))" "map_of (display st) k = Some v"
        by (simp_all add: ks disp kf mf isLiteral_pair isFormulaOk_pair)
      with os False cv show ?thesis
        by (auto simp: l3 l2 l1 l0 cellDisplay_def Let_def)
    next
      case True
      show ?thesis
      proof (cases "parsedAst N v")
        case None
        with True have "k \<notin> set (mapKeys (formulas st))" "map_of (display st) k = None"
          "k \<in> set (formulaErrors st)"
          by (simp_all add: ks es disp kf mf isLiteral_pair isFormulaOk_pair isFormulaBad_pair)
        with os True None cv show ?thesis
          by (auto simp: l3 l2 l1 l0 cellDisplay_def Let_def)
      next
        case pa: (Some a)
        with True have inF: "k \<in> set (mapKeys (formulas st))" and ne: "k \<notin> set (formulaErrors st)"
          by (simp_all add: ks es kf isFormulaOk_pair isFormulaBad_pair)
        have "(k, a) \<in> set (formulas st)" using fs [of k a] kv True pa by blast
        moreover have "distinct (map fst (formulas st))"
          using d unfolding ks [unfolded mapKeys_def] by (rule distinct_map_filter)
        ultimately have fa: "mapGet (formulas st) k = Some a" by (simp add: mapGet_def)
        have sv: "\<And>c. stepValue N st cells c k =
            asFormulaValue (evaluateNode N a (getCellValue c (display st) cells))"
          by (simp add: stepValue_def ne fa)
        show ?thesis
          using True pa cv inF
          by (auto simp: l3 l2 l1 l0 sv cellDisplay_def Let_def st_def [symmetric] ordered_def [symmetric])
      qed
    qed
  qed
qed


section \<open>The tests of the repository\<close>

text \<open>
  The two tests of \<open>formulas.test.ts\<close>, run on the embedding with the primitives
  interpreted as doubles.
\<close>

lemma test_basic_arithmetic:
  "calculateDisplayCells doubleOps
     [(getCellKey (Finite 0) (Finite 0), ''2''), (getCellKey (Finite 1) (Finite 0), ''3''),
      (getCellKey (Finite 2) (Finite 0), ''=A1+A2''), (getCellKey (Finite 3) (Finite 0), ''=A2*2'')] =
     [(getCellKey (Finite 0) (Finite 0), ''2''), (getCellKey (Finite 1) (Finite 0), ''3''),
      (getCellKey (Finite 2) (Finite 0), ''5''), (getCellKey (Finite 3) (Finite 0), ''6'')]"
  by code_simp

lemma test_functions_with_ranges:
  "calculateDisplayCells doubleOps
     [(getCellKey (Finite 0) (Finite 0), ''4''), (getCellKey (Finite 1) (Finite 0), ''6''),
      (getCellKey (Finite 2) (Finite 0), ''10''), (getCellKey (Finite 0) (Finite 1), ''=SUM(A1:A3)''),
      (getCellKey (Finite 1) (Finite 1), ''=AVERAGE(A1:A3)''),
      (getCellKey (Finite 2) (Finite 1), ''=COUNT(A1:A3)'')] =
     [(getCellKey (Finite 0) (Finite 0), ''4''), (getCellKey (Finite 1) (Finite 0), ''6''),
      (getCellKey (Finite 2) (Finite 0), ''10''), (getCellKey (Finite 0) (Finite 1), ''20''),
      (getCellKey (Finite 1) (Finite 1), ''6.666666666666667''),
      (getCellKey (Finite 2) (Finite 1), ''3'')]"
  by code_simp


section \<open>The claims\<close>

text \<open>
  In all theorems about a whole Cell Store the hypothesis \<open>distinct (map fst cells)\<close>
  says that the store is a \<open>Map\<close>: no key occurs twice.
\<close>

subsection \<open>C8: literal cells are shown as stored\<close>

text \<open>
  Claim C8. For every Cell Store and every literal (non-formula) cell in it, the display
  output for that key equals the stored raw text, character for character: neither the
  evaluation pass, nor the formatting pass, nor the error-marking pass overwrites or
  reformats the entry of a literal cell.
\<close>

theorem literal_cells_unchanged:
  assumes "distinct (map fst cells)" and "(k, v) \<in> set cells" and "\<not> startsWithEq v"
  shows "mapGet (calculateDisplayCells N cells) k = Some v"
proof -
  from assms(1,2) have "map_of cells k = Some v" by simp
  with display_lookup [OF assms(1), of N k] assms(3) show ?thesis
    by (simp add: mapGet_def cellDisplay_def Let_def)
qed

theorem literal_cells_unchanged_witness:
  "distinct (map fst [(getCellKey (Finite 0) (Finite 0), '' 007 ''), (getCellKey (Finite 0) (Finite 1), ''=A1+1'')]) \<and>
   (getCellKey (Finite 0) (Finite 0), '' 007 '') \<in> set [(getCellKey (Finite 0) (Finite 0), '' 007 ''), (getCellKey (Finite 0) (Finite 1), ''=A1+1'')] \<and>
   \<not> startsWithEq '' 007 '' \<and>
   mapGet (calculateDisplayCells doubleOps [(getCellKey (Finite 0) (Finite 0), '' 007 ''), (getCellKey (Finite 0) (Finite 1), ''=A1+1'')])
     (getCellKey (Finite 0) (Finite 0)) = Some '' 007 ''"
proof -
  have a: "distinct (map fst [(getCellKey (Finite 0) (Finite 0), '' 007 ''), (getCellKey (Finite 0) (Finite 1), ''=A1+1'')])"
    by (simp add: getCellKey_def)
  have b: "(getCellKey (Finite 0) (Finite 0), '' 007 '') \<in> set [(getCellKey (Finite 0) (Finite 0), '' 007 ''), (getCellKey (Finite 0) (Finite 1), ''=A1+1'')]"
    by simp
  have c: "\<not> startsWithEq '' 007 ''" by (simp add: startsWithEq_def)
  from literal_cells_unchanged [OF a b c, of doubleOps] a b c show ?thesis by blast
qed

subsection \<open>C1: the display map covers the Cell Store\<close>

text \<open>
  A tree returned by the parser for a whole formula is never a range node, because ranges
  are built by \<open>parseArgument\<close> only; and \<open>evaluateNode\<close> yields a single value on
  every tree that is not a range node.
\<close>

fun isRange :: "'n FormulaNode \<Rightarrow> bool" where
  "isRange (RangeNode s e) = True"
| "isRange _ = False"

lemma evaluateNode_scalar:
  "\<not> isRange node \<Longrightarrow> \<exists>v. evaluateNode N node lookup = Scalar v"
  by (cases node) (auto simp: Let_def split: option.splits)

lemma parser_not_range:
  "parseExpression N ts = (Some a, r) \<Longrightarrow> \<not> isRange a"
  "parseExpressionLoop N node ts = (Some a, r) \<Longrightarrow> (\<forall>n. node = Some n \<longrightarrow> \<not> isRange n) \<Longrightarrow> \<not> isRange a"
  "parseTerm N ts = (Some a, r) \<Longrightarrow> \<not> isRange a"
  "parseTermLoop N node ts = (Some a, r) \<Longrightarrow> (\<forall>n. node = Some n \<longrightarrow> \<not> isRange n) \<Longrightarrow> \<not> isRange a"
  "parseUnary N ts = (Some a, r) \<Longrightarrow> \<not> isRange a"
  "parsePrimary N ts = (Some a, r) \<Longrightarrow> \<not> isRange a"
  "parseArguments N args ts = (Some as, r) \<Longrightarrow> True"
  "parseArgument N ts = (Some a, r) \<Longrightarrow> True"
proof (induction N ts and N node ts and N ts and N node ts and N ts and N ts and N args ts and N ts
       arbitrary: a r and a r and a r and a r and a r and a r and as r and a r
       rule: parseExpression_parseExpressionLoop_parseTerm_parseTermLoop_parseUnary_parsePrimary_parseArguments_parseArgument.induct)
  case (1 N ts)
  obtain node ts1 where t: "parseTerm N ts = (node, ts1)" by (cases "parseTerm N ts")
  from 1(3) t have l: "parseExpressionLoop N node ts1 = (Some a, r)"
    by (simp add: parseExpression.simps [of N ts])
  have "\<forall>n. node = Some n \<longrightarrow> \<not> isRange n" using 1(1) t by blast
  from 1(2) [OF t [symmetric] l this] show ?case .
next
  case (2 N node ts)
  show ?case
  proof (cases "matchOperator [''+'', ''-''] ts")
    case None
    with 2(3) 2(4) show ?thesis by (simp add: parseExpressionLoop.simps [of N node ts])
  next
    case (Some ts1)
    obtain right ts2 where t: "parseTerm N ts1 = (right, ts2)" by (cases "parseTerm N ts1")
    from 2(3) Some t obtain l r' where lr: "node = Some l" "right = Some r'"
      and rec: "parseExpressionLoop N (Some (Binary (tvalue (peek ts)) l r')) ts2 = (Some a, r)"
      by (auto simp: parseExpressionLoop.simps [of N node ts] split: option.splits)
    from 2(2) [OF Some t [symmetric] lr rec] show ?thesis by simp
  qed
next
  case (3 N ts)
  obtain node ts1 where t: "parseUnary N ts = (node, ts1)" by (cases "parseUnary N ts")
  from 3(3) t have l: "parseTermLoop N node ts1 = (Some a, r)"
    by (simp add: parseTerm.simps [of N ts])
  have "\<forall>n. node = Some n \<longrightarrow> \<not> isRange n" using 3(1) t by blast
  from 3(2) [OF t [symmetric] l this] show ?case .
next
  case (4 N node ts)
  show ?case
  proof (cases "matchOperator [''*'', ''/''] ts")
    case None
    with 4(3) 4(4) show ?thesis by (simp add: parseTermLoop.simps [of N node ts])
  next
    case (Some ts1)
    obtain right ts2 where t: "parseUnary N ts1 = (right, ts2)" by (cases "parseUnary N ts1")
    from 4(3) Some t obtain l r' where lr: "node = Some l" "right = Some r'"
      and rec: "parseTermLoop N (Some (Binary (tvalue (peek ts)) l r')) ts2 = (Some a, r)"
      by (auto simp: parseTermLoop.simps [of N node ts] split: option.splits)
    from 4(2) [OF Some t [symmetric] lr rec] show ?thesis by simp
  qed
next
  case (5 N ts)
  show ?case
  proof (cases "matchOperator [''+'', ''-''] ts")
    case None
    with 5(3) have "parsePrimary N ts = (Some a, r)" by (simp add: parseUnary.simps [of N ts])
    from 5(1) [OF None this] show ?thesis .
  next
    case (Some ts1)
    with 5(3) show ?thesis
      by (auto simp: parseUnary.simps [of N ts] split: prod.splits option.splits)
  qed
next
  case (6 N ts)
  show ?case
  proof (cases "check TNumber ts \<or> check TCell ts \<or> check TIdentifier ts")
    case True
    with 6(3) show ?thesis
      by (auto simp: parsePrimary.simps [of N ts] split: prod.splits option.splits if_splits)
  next
    case False
    show ?thesis
    proof (cases "matchParen ''('' ts")
      case None
      with 6(3) False show ?thesis by (simp add: parsePrimary.simps [of N ts])
    next
      case (Some ts1)
      with 6(3) False obtain ts2 where "parseExpression N ts1 = (Some a, ts2)"
        by (auto simp: parsePrimary.simps [of N ts] split: prod.splits option.splits)
      from 6(2) [OF _ _ _ Some this] False show ?thesis by simp
    qed
  qed
next
  case (7 N args ts)
  show ?case by simp
next
  case (8 N ts)
  show ?case by simp
qed

lemma parseFormula_not_range: "parsedAst N v = Some a \<Longrightarrow> \<not> isRange a"
proof -
  assume p: "parsedAst N v = Some a"
  let ?ts = "tokenize (tl v)"
  obtain x r where e: "parseExpression N ?ts = (x, r)" by (cases "parseExpression N ?ts")
  from p e have "x = Some a"
    by (auto simp: parsedAst_def parseFormula_def Let_def split: if_splits)
  with e show ?thesis using parser_not_range(1) by blast
qed




subsection \<open>C6: range expansion\<close>


lemma roundToDouble_small: "\<bar>i\<bar> < 2 ^ 53 \<Longrightarrow> roundToDouble i = Finite i"
  by (auto simp: roundToDouble_def roundMagnitude_def)



















subsection \<open>C10: a reference to row 0\<close>

lemma isAlpha_not_digit: "isAlpha c \<Longrightarrow> \<not> isDigit c"
  by (auto simp: isAlpha_def isDigit_def Let_def)

lemma takeWhile_run:
  "list_all P xs \<Longrightarrow> (ys = [] \<or> \<not> P (hd ys)) \<Longrightarrow> takeWhile P (xs @ ys) = xs"
  by (induction xs) (auto simp: takeWhile_eq_Nil_iff)

lemma dropWhile_run:
  "list_all P xs \<Longrightarrow> (ys = [] \<or> \<not> P (hd ys)) \<Longrightarrow> dropWhile P (xs @ ys) = ys"
  by (induction xs) (auto simp: dropWhile_eq_self_iff)

lemma tokenize_cell:
  assumes "letters \<noteq> []" "list_all isAlpha letters" "digits \<noteq> []" "list_all isDigit digits"
  shows "tokenize (letters @ digits) = [tok TCell (letters @ digits), tok TEof []]"
proof -
  from assms(1) obtain c ls where l: "letters = c # ls" by (cases letters) auto
  with assms(2) have ac: "isAlpha c" and als: "list_all isAlpha ls" by simp_all
  from assms(3,4) have hd: "isDigit (hd digits)" by (cases digits) auto
  then have nh: "\<not> isAlpha (hd digits)" using isAlpha_not_digit by blast
  have t1: "takeWhile isAlpha (ls @ digits) = ls" using als nh by (simp add: takeWhile_run)
  have d1: "dropWhile isAlpha (ls @ digits) = digits" using als nh by (simp add: dropWhile_run)
  have t2: "takeWhile isDigit digits = digits" using assms(4) by (simp add: list_all_iff)
  have d2: "dropWhile isDigit digits = []" using assms(4) by (simp add: list_all_iff)
  from ac have nc: "c \<noteq> CHR '' ''" "c \<noteq> CHR 0x09" "c \<noteq> CHR 0x0A" "c \<noteq> CHR 0x0D"
    "c \<noteq> CHR ''+''" "c \<noteq> CHR ''-''" "c \<noteq> CHR ''*''" "c \<noteq> CHR ''/''"
    "c \<noteq> CHR ''(''" "c \<noteq> CHR '')''" "c \<noteq> CHR '',''" "c \<noteq> CHR '':''" "c \<noteq> CHR ''.''"
    by (auto simp: isAlpha_def Let_def)
  from ac have nd: "\<not> isDigit c" by (rule isAlpha_not_digit)
  show ?thesis
    using assms(3) by (simp add: tokenize_def l nc nd ac t1 d1 t2 d2)
qed

lemma tok_sel: "ttype (tok t v) = t" "tvalue (tok t v) = v"
  by (simp_all add: tok_def)

lemma parseFormula_cell:
  "parseFormula N [tok TCell ref, tok TEof []] = \<lparr>ok = True, ast = Some (Cell ref)\<rparr>"
proof -
  let ?ts = "[tok TCell ref, tok TEof []]"
  have p: "parsePrimary N ?ts = (Some (Cell ref), [tok TEof []])"
    by (simp add: parsePrimary.simps [of N ?ts] check_def peek_def tok_sel advance_def isAtEnd_def)
  have u: "parseUnary N ?ts = (Some (Cell ref), [tok TEof []])"
    by (simp add: parseUnary.simps [of N ?ts] matchOperator_def peek_def tok_sel p)
  have tl: "\<And>node. parseTermLoop N node [tok TEof []] = (node, [tok TEof []])"
    by (simp add: parseTermLoop.simps [of N _ "[tok TEof []]"] matchOperator_def peek_def tok_sel)
  have t: "parseTerm N ?ts = (Some (Cell ref), [tok TEof []])"
    by (simp add: parseTerm.simps [of N ?ts] u tl)
  have el: "\<And>node. parseExpressionLoop N node [tok TEof []] = (node, [tok TEof []])"
    by (simp add: parseExpressionLoop.simps [of N _ "[tok TEof []]"] matchOperator_def peek_def tok_sel)
  have e: "parseExpression N ?ts = (Some (Cell ref), [tok TEof []])"
    by (simp add: parseExpression.simps [of N ?ts] t el)
  show ?thesis
    by (simp add: parseFormula_def e peek_def tok_sel)
qed

lemma parsedAst_cell:
  assumes "letters \<noteq> []" "list_all isAlpha letters" "digits \<noteq> []" "list_all isDigit digits"
  shows "parsedAst N (CHR ''='' # letters @ digits) = Some (Cell (letters @ digits))"
  by (simp add: parsedAst_def tokenize_cell [OF assms] parseFormula_cell)

lemma parseCellRef_row_zero:
  assumes "letters \<noteq> []" "list_all isAlpha letters" "digits \<noteq> []" "list_all isDigit digits"
    and "parseInt digits = Finite 0"
  shows "parseCellRef (letters @ digits) = None"
proof -
  from assms(3,4) have hd: "isDigit (hd digits)" by (cases digits) auto
  then have nh: "\<not> isAlpha (hd digits)" using isAlpha_not_digit by blast
  have t1: "takeWhile isAlpha (letters @ digits) = letters"
    using assms(2) nh by (simp add: takeWhile_run)
  have d1: "dropWhile isAlpha (letters @ digits) = digits"
    using assms(2) nh by (simp add: dropWhile_run)
  have m: "roundToDouble (- 1) = Finite (- 1)" by (rule roundToDouble_small) simp
  show ?thesis
    using assms by (simp add: parseCellRef_def t1 d1 Let_def m jsLess_def)
qed


lemma cell_dependencies:
  assumes d: "distinct (map fst cells)" and kv: "(k, v) \<in> set cells"
    and f: "startsWithEq v" and p: "parsedAst N v = Some a"
  shows "k \<in> set (mapKeys (formulas (parseCells N cells)))"
    and "mapGet (formulas (parseCells N cells)) k = Some a"
    and "successors (dependencies (parseCells N cells)) k = collectDependencies a []"
proof -
  let ?st = "parseCells N cells"
  from parseCells_props [OF d, of N] have
    ks: "mapKeys (formulas ?st) = map fst (filter (isFormulaOk N) cells)" and
    ds: "dependencies ?st = map (\<lambda>(k, a). (k, collectDependencies a [])) (formulas ?st)" and
    fs: "\<And>k a. (k, a) \<in> set (formulas ?st) \<longleftrightarrow>
               (\<exists>v. (k, v) \<in> set cells \<and> startsWithEq v \<and> parsedAst N v = Some a)"
    unfolding parsedInv_def by blast+
  have dk: "distinct (map fst (formulas ?st))"
    using d unfolding ks [unfolded mapKeys_def] by (rule distinct_map_filter)
  have ka: "(k, a) \<in> set (formulas ?st)" using fs [of k a] kv f p by blast
  then show "k \<in> set (mapKeys (formulas ?st))" by (force simp: mapKeys_def)
  from dk ka show "mapGet (formulas ?st) k = Some a" by (simp add: mapGet_def)
  have "distinct (map fst (dependencies ?st))"
    using dk by (simp add: ds comp_def case_prod_beta)
  moreover have "(k, collectDependencies a []) \<in> set (dependencies ?st)"
    using ka by (force simp: ds)
  ultimately show "successors (dependencies ?st) k = collectDependencies a []"
    by (simp add: successors_def mapGet_def)
qed

lemma scheduled_iff_precedents:
  assumes d: "distinct (map fst cells)" and kv: "(k, v) \<in> set cells"
    and f: "startsWithEq v" and p: "parsedAst N v = Some a"
  shows "k \<in> set (scheduleOrder (parseCells N cells)) \<longleftrightarrow>
         (\<forall>dep \<in> set (collectDependencies a []).
            dep \<in> set (mapKeys (formulas (parseCells N cells))) \<longrightarrow>
            dep \<in> set (scheduleOrder (parseCells N cells)))"
proof -
  let ?st = "parseCells N cells"
  define g where
    "g = addEdges (formulas ?st) (dependencies ?st) (initGraph (mapKeys (formulas ?st)))"
  note sf = schedule_final [OF d refl g_def]
  note cd = cell_dependencies [OF d kv f p]
  have pr: "preds (adjacency g) k =
      {dep \<in> set (mapKeys (formulas ?st)). dep \<in> set (collectDependencies a [])}"
    by (auto simp: preds_edgeRel sf(4) cd(3))
  from sf(1) cd(1) sf(3)
  have "k \<in> set (scheduleOrder ?st) \<longleftrightarrow> preds (adjacency g) k \<subseteq> set (scheduleOrder ?st)"
    unfolding kahnFinal_def by simp
  then show ?thesis unfolding pr by blast
qed

text \<open>
  Claim C10. Reference resolution rejects row number 0: for every textual reference made
  of a letter run and a digit run that parses to 0 (such as \<open>A0\<close>), \<open>parseCellRef\<close>
  returns no reference. Consequently a reference node with such a text evaluates to
  absence, which is displayed as the empty string, and contributes no dependency key;
  and every formula cell whose text is \<open>=\<close> followed by such a reference displays the
  empty string.
\<close>

theorem row_zero_reference:
  assumes l: "letters \<noteq> []" "list_all isAlpha letters"
    and dg: "digits \<noteq> []" "list_all isDigit digits" and z: "parseInt digits = Finite 0"
  shows "parseCellRef (letters @ digits) = None \<and>
         evaluateNode N (Cell (letters @ digits)) lookup = Scalar Null \<and>
         formatValue N Null = [] \<and>
         collectDependencies (Cell (letters @ digits)) deps = deps \<and>
         (\<forall>cells k. distinct (map fst cells) \<and> (k, CHR ''='' # letters @ digits) \<in> set cells \<longrightarrow>
            mapGet (calculateDisplayCells N cells) k = Some [])"
proof -
  note none = parseCellRef_row_zero [OF l dg z]
  have ev: "\<And>lookup. evaluateNode N (Cell (letters @ digits)) lookup = Scalar Null"
    by (simp add: none)
  have cd: "\<And>deps. collectDependencies (Cell (letters @ digits)) deps = deps"
    by (simp add: none)
  have disp: "\<forall>cells k. distinct (map fst cells) \<and> (k, CHR ''='' # letters @ digits) \<in> set cells \<longrightarrow>
            mapGet (calculateDisplayCells N cells) k = Some []"
  proof (intro allI impI)
    fix cells :: "(CellKey \<times> string) list" and k
    let ?v = "CHR ''='' # letters @ digits"
    assume "distinct (map fst cells) \<and> (k, ?v) \<in> set cells"
    then have d: "distinct (map fst cells)" and kv: "(k, ?v) \<in> set cells" by simp_all
    have f: "startsWithEq ?v" by (simp add: startsWithEq_def)
    have p: "parsedAst N ?v = Some (Cell (letters @ digits))" by (rule parsedAst_cell [OF l dg])
    have "collectDependencies (Cell (letters @ digits) :: 'a FormulaNode) [] = []" by (rule cd)
    then have "k \<in> set (scheduleOrder (parseCells N cells))"
      using scheduled_iff_precedents [OF d kv f p] by (simp del: collectDependencies.simps)
    moreover from d kv have "map_of cells k = Some ?v" by simp
    ultimately show "mapGet (calculateDisplayCells N cells) k = Some []"
      using f p by (simp add: mapGet_def display_lookup [OF d] cellDisplay_def Let_def none)
  qed
  from none ev cd disp show ?thesis by simp
qed

theorem row_zero_reference_witness:
  "''A'' \<noteq> [] \<and> list_all isAlpha ''A'' \<and> ''0'' \<noteq> [] \<and> list_all isDigit ''0'' \<and> parseInt ''0'' = Finite 0 \<and>
   parseCellRef ''A0'' = None \<and>
   mapGet (calculateDisplayCells doubleOps [(getCellKey (Finite 0) (Finite 0), ''7''), (getCellKey (Finite 0) (Finite 1), ''=A0'')])
     (getCellKey (Finite 0) (Finite 1)) = Some []"
proof -
  have a: "''A'' \<noteq> []" "list_all isAlpha ''A''" by (simp_all add: isAlpha_def)
  have b: "''0'' \<noteq> []" "list_all isDigit ''0''" by (simp_all add: isDigit_def)
  have c: "parseInt ''0'' = Finite 0" by code_simp
  note t = row_zero_reference [OF a b c, of doubleOps]
  from t have n: "parseCellRef ''A0'' = None" by simp
  have "distinct (map fst [(getCellKey (Finite 0) (Finite 0), ''7''), (getCellKey (Finite 0) (Finite 1), ''=A0'')]) \<and>
        (getCellKey (Finite 0) (Finite 1), CHR ''='' # ''A'' @ ''0'') \<in> set [(getCellKey (Finite 0) (Finite 0), ''7''), (getCellKey (Finite 0) (Finite 1), ''=A0'')]"
    by (simp add: getCellKey_def)
  with t have "mapGet (calculateDisplayCells doubleOps [(getCellKey (Finite 0) (Finite 0), ''7''), (getCellKey (Finite 0) (Finite 1), ''=A0'')])
     (getCellKey (Finite 0) (Finite 1)) = Some []" by blast
  with a b c n show ?thesis by simp
qed

subsection \<open>C7: numeric coercion\<close>

text \<open>
  The pattern in the words of the spec: an optional minus sign, then digits, then
  optionally a point and digits.
\<close>

definition signedDecimal :: "string \<Rightarrow> bool" where
  "signedDecimal s =
     (\<exists>sgn ip fp. s = sgn @ ip @ fp \<and> (sgn = [] \<or> sgn = ''-'') \<and>
        ip \<noteq> [] \<and> list_all isDigit ip \<and>
        (fp = [] \<or> (\<exists>ds. fp = CHR ''.'' # ds \<and> ds \<noteq> [] \<and> list_all isDigit ds)))"

lemma not_digit_chars: "\<not> isDigit CHR ''-''" "\<not> isDigit CHR ''.''" "\<not> isDigit CHR ''+''"
  by (simp_all add: isDigit_def)

lemma NUMBER_RE_iff: "NUMBER_RE s \<longleftrightarrow> signedDecimal s"
proof
  assume re: "NUMBER_RE s"
  define sgn where "sgn = (case s of [] \<Rightarrow> [] | c # r \<Rightarrow> if c = CHR ''-'' then ''-'' else [])"
  define body where "body = (case s of [] \<Rightarrow> [] | c # r \<Rightarrow> if c = CHR ''-'' then r else s)"
  have s: "s = sgn @ body" by (cases s) (auto simp: sgn_def body_def)
  have sg: "sgn = [] \<or> sgn = ''-''" by (cases s) (auto simp: sgn_def)
  from re have ip: "takeWhile isDigit body \<noteq> []"
    and fp: "dropWhile isDigit body = [] \<or>
             (\<exists>ds. dropWhile isDigit body = CHR ''.'' # ds \<and> ds \<noteq> [] \<and> list_all isDigit ds)"
    by (auto simp: NUMBER_RE_def body_def Let_def split: list.splits)
  have "list_all isDigit (takeWhile isDigit body)"
    by (simp add: list_all_iff) (meson set_takeWhileD)
  moreover have "s = sgn @ takeWhile isDigit body @ dropWhile isDigit body" using s by simp
  ultimately show "signedDecimal s" unfolding signedDecimal_def using sg ip fp by blast
next
  assume "signedDecimal s"
  then obtain sgn ip fp where s: "s = sgn @ ip @ fp" and sg: "sgn = [] \<or> sgn = ''-''"
    and ip: "ip \<noteq> []" "list_all isDigit ip"
    and fp: "fp = [] \<or> (\<exists>ds. fp = CHR ''.'' # ds \<and> ds \<noteq> [] \<and> list_all isDigit ds)"
    unfolding signedDecimal_def by blast
  from ip obtain c cs where ipc: "ip = c # cs" and dc: "isDigit c" by (cases ip) auto
  from dc have cm: "c \<noteq> CHR ''-''" using not_digit_chars(1) by auto
  have body: "(case s of [] \<Rightarrow> [] | c # r \<Rightarrow> if c = CHR ''-'' then r else s) = ip @ fp"
    using sg s ipc cm by auto
  from fp have nf: "fp = [] \<or> \<not> isDigit (hd fp)" using not_digit_chars(2) by auto
  have t: "takeWhile isDigit (ip @ fp) = ip" using ip(2) nf by (rule takeWhile_run)
  have d: "dropWhile isDigit (ip @ fp) = fp" using ip(2) nf by (rule dropWhile_run)
  show "NUMBER_RE s"
    unfolding NUMBER_RE_def body Let_def t d using ip(1) fp by auto
qed


text \<open>
  Claim C7, as amended. A value is numeric if and only if it is a finite number, or a
  string that after trimming white space consists of an optional minus sign (a plus sign
  is not accepted), digits, and optionally a point and digits. \<open>toNumber\<close> returns a
  number as it is (finite or not), the parsed value of a numeric string, and 0 for every
  other value (absence and all other text). The operators apply \<open>toNumber\<close> to the
  values of their operands, and a function call keeps the numeric argument values only
  and applies \<open>toNumber\<close> to them.
\<close>

theorem numeric_coercion:
  "(isNumericValue N v \<longleftrightarrow>
      (case v of Num n \<Rightarrow> isFinite N n | Str s \<Rightarrow> signedDecimal (trim s) | Null \<Rightarrow> False)) \<and>
   toNumber N v =
      (case v of
         Num n \<Rightarrow> n
       | Str s \<Rightarrow> if signedDecimal (trim s) then parseFloat N (trim s) else ofNat N 0
       | Null \<Rightarrow> ofNat N 0) \<and>
   evaluateNode N (Unary ''-'' x) lookup =
      Scalar (Num (numNeg N (toNumber N (firstOrZero N (evaluateNode N x lookup))))) \<and>
   evaluateNode N (Unary ''+'' x) lookup =
      Scalar (Num (toNumber N (firstOrZero N (evaluateNode N x lookup)))) \<and>
   evaluateNode N (Binary ''+'' l r) lookup =
      Scalar (Num (numAdd N (toNumber N (firstOrZero N (evaluateNode N l lookup)))
                            (toNumber N (firstOrZero N (evaluateNode N r lookup))))) \<and>
   evaluateNode N (Binary ''-'' l r) lookup =
      Scalar (Num (numSub N (toNumber N (firstOrZero N (evaluateNode N l lookup)))
                            (toNumber N (firstOrZero N (evaluateNode N r lookup))))) \<and>
   evaluateNode N (Binary ''*'' l r) lookup =
      Scalar (Num (numMul N (toNumber N (firstOrZero N (evaluateNode N l lookup)))
                            (toNumber N (firstOrZero N (evaluateNode N r lookup))))) \<and>
   evaluateNode N (Function ''SUM'' args) lookup =
      Scalar (Num (sumNumbers N (map (toNumber N) (filter (isNumericValue N)
        (concat (map (\<lambda>arg. asList (evaluateNode N arg lookup)) args)))))) \<and>
   evaluateNode N (Function ''COUNT'' args) lookup =
      Scalar (Num (ofNat N (length (filter (isNumericValue N)
        (concat (map (\<lambda>arg. asList (evaluateNode N arg lookup)) args))))))"
proof -
  have up: "toUpperCase ''SUM'' = ''SUM''" "toUpperCase ''COUNT'' = ''COUNT''"
    by (simp_all add: toUpperCase_def toUpperChar_def)
  show ?thesis
    by (cases v) (simp_all add: NUMBER_RE_iff Let_def up)
qed

theorem numeric_coercion_witness:
  "isNumericValue doubleOps (Str '' -12.50 '') \<and>
   toNumber doubleOps (Str '' -12.50 '') = Dbl (- 25 / 2) \<and>
   toNumber doubleOps (Str ''12a'') = Dbl 0 \<and>
   toNumber doubleOps Null = Dbl 0"
proof -
  have a: "NUMBER_RE (trim '' -12.50 '')" by code_simp
  have b: "\<not> NUMBER_RE (trim ''12a'')" by code_simp
  have c: "parseFloat doubleOps (trim '' -12.50 '') = Dbl (- 25 / 2)" by code_simp
  have z: "ofNat doubleOps 0 = Dbl 0" by code_simp
  note t1 = numeric_coercion [of doubleOps "Str '' -12.50 ''", THEN conjunct1]
  note t2 = numeric_coercion [of doubleOps "Str '' -12.50 ''", THEN conjunct2, THEN conjunct1]
  note t3 = numeric_coercion [of doubleOps "Str ''12a''", THEN conjunct2, THEN conjunct1]
  note t4 = numeric_coercion [of doubleOps Null, THEN conjunct2, THEN conjunct1]
  from t1 a have "isNumericValue doubleOps (Str '' -12.50 '')"
    by (simp add: NUMBER_RE_iff del: isNumericValue.simps)
  moreover from t2 a c have "toNumber doubleOps (Str '' -12.50 '') = Dbl (- 25 / 2)"
    by (simp add: NUMBER_RE_iff del: toNumber.simps)
  moreover from t3 b z have "toNumber doubleOps (Str ''12a'') = Dbl 0"
    by (simp add: NUMBER_RE_iff del: toNumber.simps)
  moreover from t4 z have "toNumber doubleOps Null = Dbl 0" by (simp del: toNumber.simps)
  ultimately show ?thesis by blast
qed

text \<open>
  The claim as it stands fails on the sign: a leading plus sign is not part of
  \<open>NUMBER_RE\<close>, so \<open>+5\<close> is not numeric and coerces to 0.
\<close>

theorem plus_sign_counterexample:
  "\<not> isNumericValue doubleOps (Str ''+5'') \<and> toNumber doubleOps (Str ''+5'') = Dbl 0"
  by code_simp

subsection \<open>C5: division by zero\<close>



subsection \<open>C3: cells on or behind a cycle\<close>

text \<open>
  \<open>formulaEdges\<close> is the dependency relation among parsed formula cells: the pair
  \<open>(d, c)\<close> says that the formula of \<open>c\<close> reads the parsed formula cell \<open>d\<close>. A cell
  is \<open>behindCycle\<close> when some cell on a cycle of this relation reaches it, in no step
  (the cell is on the cycle itself) or more.
\<close>

definition formulaEdges :: "'n Parsed \<Rightarrow> (CellKey \<times> CellKey) set" where
  "formulaEdges st =
     {(d, c). d \<in> set (mapKeys (formulas st)) \<and> d \<in> set (successors (dependencies st) c)}"

definition behindCycle :: "'n Parsed \<Rightarrow> CellKey \<Rightarrow> bool" where
  "behindCycle st c = (\<exists>x. (x, x) \<in> (formulaEdges st)\<^sup>+ \<and> (x, c) \<in> (formulaEdges st)\<^sup>*)"

lemma left_out_iff_behindCycle:
  assumes d: "distinct (map fst cells)"
    and k: "k \<in> set (mapKeys (formulas (parseCells N cells)))"
  shows "k \<notin> set (scheduleOrder (parseCells N cells)) \<longleftrightarrow> behindCycle (parseCells N cells) k"
proof -
  let ?st = "parseCells N cells"
  define g where
    "g = addEdges (formulas ?st) (dependencies ?st) (initGraph (mapKeys (formulas ?st)))"
  note sf = schedule_final [OF d refl g_def]
  have e: "edgeRel (adjacency g) = formulaEdges ?st" by (simp add: sf(4) formulaEdges_def)
  from k sf(3) have kk: "k \<in> set (mapKeys (adjacency g))" by simp
  show ?thesis
  proof
    assume "k \<notin> set (scheduleOrder ?st)"
    from kahnFinal_left_out [OF sf(1) sf(2) kk this] show "behindCycle ?st k"
      by (simp add: behindCycle_def e)
  next
    assume "behindCycle ?st k"
    then obtain x where "(x, x) \<in> (edgeRel (adjacency g))\<^sup>+" "(x, k) \<in> (edgeRel (adjacency g))\<^sup>*"
      unfolding behindCycle_def e by blast
    then show "k \<notin> set (scheduleOrder ?st)" by (rule kahnFinal_no_cycle [OF sf(1) sf(2)])
  qed
qed

text \<open>
  Claim C3, as amended. For every Cell Store and every formula cell in it whose text
  parses: the Kahn pass leaves the cell out if and only if the cell lies on a dependency
  cycle among parsed formula cells or depends on such a cycle through parsed formula
  cells; a cell that is left out displays \<open>#CYCLE\<close>; every other such cell is evaluated
  and displays the formatted value of its tree. (That value is itself the text
  \<open>#CYCLE\<close> when the formula merely refers to a cell holding this text; and a formula
  cell whose text does not parse is never dequeued either, but displays \<open>#ERROR\<close>.)
\<close>

theorem cycle_cells:
  assumes d: "distinct (map fst cells)" and kv: "(k, v) \<in> set cells"
    and f: "startsWithEq v" and p: "parsedAst N v = Some a"
  shows "(k \<notin> set (scheduleOrder (parseCells N cells)) \<longleftrightarrow> behindCycle (parseCells N cells) k) \<and>
         (if behindCycle (parseCells N cells) k
          then mapGet (calculateDisplayCells N cells) k = Some ''#CYCLE''
          else (\<exists>w. evaluateNode N a
                      (getCellValue
                         (evaluateAll N (parseCells N cells) cells
                            (takeWhile (\<lambda>x. x \<noteq> k) (scheduleOrder (parseCells N cells))))
                         (display (parseCells N cells)) cells) = Scalar w \<and>
                    mapGet (calculateDisplayCells N cells) k = Some (formatValue N w)))"
proof -
  let ?st = "parseCells N cells"
  note cd = cell_dependencies [OF d kv f p]
  note iff = left_out_iff_behindCycle [OF d cd(1)]
  from d kv have m: "map_of cells k = Some v" by simp
  from parseFormula_not_range [OF p] evaluateNode_scalar [of a N]
  obtain w where w: "evaluateNode N a
        (getCellValue (evaluateAll N ?st cells (takeWhile (\<lambda>x. x \<noteq> k) (scheduleOrder ?st)))
           (display ?st) cells) = Scalar w" by blast
  have "if behindCycle ?st k
        then mapGet (calculateDisplayCells N cells) k = Some ''#CYCLE''
        else mapGet (calculateDisplayCells N cells) k = Some (formatValue N w)"
  proof (cases "k \<in> set (scheduleOrder ?st)")
    case True
    with iff have "\<not> behindCycle ?st k" by simp
    with True f p w show ?thesis
      by (simp add: mapGet_def display_lookup [OF d] m cellDisplay_def Let_def)
  next
    case False
    with iff have "behindCycle ?st k" by simp
    with False f p show ?thesis
      by (simp add: mapGet_def display_lookup [OF d] m cellDisplay_def Let_def)
  qed
  with iff w show ?thesis by auto
qed

theorem cycle_cells_witness:
  "distinct (map fst [(getCellKey (Finite 0) (Finite 0), ''1''), (getCellKey (Finite 0) (Finite 1), ''=A1+1''), (getCellKey (Finite 0) (Finite 2), ''=B1+1''),
                      (getCellKey (Finite 1) (Finite 0), ''=B2''), (getCellKey (Finite 1) (Finite 1), ''=A2'')]) \<and>
   behindCycle (parseCells doubleOps
      [(getCellKey (Finite 0) (Finite 0), ''1''), (getCellKey (Finite 0) (Finite 1), ''=A1+1''), (getCellKey (Finite 0) (Finite 2), ''=B1+1''),
       (getCellKey (Finite 1) (Finite 0), ''=B2''), (getCellKey (Finite 1) (Finite 1), ''=A2'')]) (getCellKey (Finite 1) (Finite 0)) \<and>
   \<not> behindCycle (parseCells doubleOps
      [(getCellKey (Finite 0) (Finite 0), ''1''), (getCellKey (Finite 0) (Finite 1), ''=A1+1''), (getCellKey (Finite 0) (Finite 2), ''=B1+1''),
       (getCellKey (Finite 1) (Finite 0), ''=B2''), (getCellKey (Finite 1) (Finite 1), ''=A2'')]) (getCellKey (Finite 0) (Finite 2)) \<and>
   calculateDisplayCells doubleOps
      [(getCellKey (Finite 0) (Finite 0), ''1''), (getCellKey (Finite 0) (Finite 1), ''=A1+1''), (getCellKey (Finite 0) (Finite 2), ''=B1+1''),
       (getCellKey (Finite 1) (Finite 0), ''=B2''), (getCellKey (Finite 1) (Finite 1), ''=A2'')] =
     [(getCellKey (Finite 0) (Finite 0), ''1''), (getCellKey (Finite 0) (Finite 1), ''2''), (getCellKey (Finite 0) (Finite 2), ''3''),
      (getCellKey (Finite 1) (Finite 0), ''#CYCLE''), (getCellKey (Finite 1) (Finite 1), ''#CYCLE'')]"
proof -
  let ?cells = "[(getCellKey (Finite 0) (Finite 0), ''1''), (getCellKey (Finite 0) (Finite 1), ''=A1+1''), (getCellKey (Finite 0) (Finite 2), ''=B1+1''),
                 (getCellKey (Finite 1) (Finite 0), ''=B2''), (getCellKey (Finite 1) (Finite 1), ''=A2'')]"
  have dist: "distinct (map fst ?cells)" by (simp add: getCellKey_def)
  have m1: "(getCellKey (Finite 1) (Finite 0), ''=B2'') \<in> set ?cells" by simp
  have m2: "(getCellKey (Finite 0) (Finite 2), ''=B1+1'') \<in> set ?cells" by simp
  have f1: "startsWithEq ''=B2''" and f2: "startsWithEq ''=B1+1''" by (simp_all add: startsWithEq_def)
  have p1: "parsedAst doubleOps ''=B2'' = Some (Cell ''B2'')" by code_simp
  have p2: "parsedAst doubleOps ''=B1+1'' = Some (Binary ''+'' (Cell ''B1'') (Number (Dbl 1)))" by code_simp
  have o: "scheduleOrder (parseCells doubleOps ?cells) = [getCellKey (Finite 0) (Finite 1), getCellKey (Finite 0) (Finite 2)]"
    by code_simp
  have n1: "getCellKey (Finite 1) (Finite 0) \<notin> set (scheduleOrder (parseCells doubleOps ?cells))"
    unfolding o by (simp add: getCellKey_def)
  have n2: "getCellKey (Finite 0) (Finite 2) \<in> set (scheduleOrder (parseCells doubleOps ?cells))"
    unfolding o by simp
  have r: "calculateDisplayCells doubleOps ?cells =
     [(getCellKey (Finite 0) (Finite 0), ''1''), (getCellKey (Finite 0) (Finite 1), ''2''), (getCellKey (Finite 0) (Finite 2), ''3''),
      (getCellKey (Finite 1) (Finite 0), ''#CYCLE''), (getCellKey (Finite 1) (Finite 1), ''#CYCLE'')]" by code_simp
  from cycle_cells [OF dist m1 f1 p1, THEN conjunct1] n1
  have b1: "behindCycle (parseCells doubleOps ?cells) (getCellKey (Finite 1) (Finite 0))" by blast
  from cycle_cells [OF dist m2 f2 p2, THEN conjunct1] n2
  have b2: "\<not> behindCycle (parseCells doubleOps ?cells) (getCellKey (Finite 0) (Finite 2))" by blast
  from dist b1 b2 r show ?thesis by blast
qed

text \<open>
  The claim as it stands fails in both directions. A formula that refers to a literal
  cell holding the text \<open>#CYCLE\<close> is dequeued and evaluated, and displays \<open>#CYCLE\<close>;
  and a formula cell whose text does not parse is never dequeued, and displays
  \<open>#ERROR\<close>.
\<close>

theorem cycle_text_counterexample:
  "getCellKey (Finite 0) (Finite 1) \<in> set (scheduleOrder (parseCells doubleOps
      [(getCellKey (Finite 0) (Finite 0), ''#CYCLE''), (getCellKey (Finite 0) (Finite 1), ''=A1''), (getCellKey (Finite 0) (Finite 2), ''=1+'')])) \<and>
   getCellKey (Finite 0) (Finite 2) \<notin> set (scheduleOrder (parseCells doubleOps
      [(getCellKey (Finite 0) (Finite 0), ''#CYCLE''), (getCellKey (Finite 0) (Finite 1), ''=A1''), (getCellKey (Finite 0) (Finite 2), ''=1+'')])) \<and>
   calculateDisplayCells doubleOps
      [(getCellKey (Finite 0) (Finite 0), ''#CYCLE''), (getCellKey (Finite 0) (Finite 1), ''=A1''), (getCellKey (Finite 0) (Finite 2), ''=1+'')] =
     [(getCellKey (Finite 0) (Finite 0), ''#CYCLE''), (getCellKey (Finite 0) (Finite 1), ''#CYCLE''), (getCellKey (Finite 0) (Finite 2), ''#ERROR'')]"
  by code_simp

subsection \<open>The cells a tree refers to, and when they are evaluated\<close>

text \<open>
  \<open>references\<close> is the set of keys that \<open>collectDependencies\<close> gathers from a tree:
  every cell reference that resolves, and every cell of every range. The evaluator asks
  its lookup for no other key, and a cell is evaluated only after the parsed formula
  cells it refers to.
\<close>

text \<open>The cells a tree refers to, as a set.\<close>

fun references :: "'n FormulaNode \<Rightarrow> CellKey set" where
  "references (Number v) = {}"
| "references (Cell ref) =
     (case parseCellRef ref of None \<Rightarrow> {} | Some coords \<Rightarrow> {getCellKey (row coords) (col coords)})"
| "references (RangeNode start end) = set (rangeKeys start end)"
| "references (Binary op left right) = references left \<union> references right"
| "references (Unary op operand) = references operand"
| "references (Function name args) = (\<Union>arg \<in> set args. references arg)"

lemma set_fold_setAdd: "set (fold (\<lambda>key d. setAdd d key) ks d) = set d \<union> set ks"
  by (induction ks arbitrary: d) (auto simp: set_setAdd)

lemma set_collectDependencies:
  "set (collectDependencies node deps) = set deps \<union> references node"
proof (induction node deps rule: collectDependencies.induct)
  case (5 name args deps)
  have "\<And>d. set as \<subseteq> set args \<Longrightarrow>
          set (fold (\<lambda>arg d. collectDependencies arg d) as d) = set d \<union> (\<Union>arg \<in> set as. references arg)"
    for as
  proof (induction as)
    case Nil
    show ?case by simp
  next
    case (Cons x as)
    from Cons.prems have x: "x \<in> set args" and r: "set as \<subseteq> set args" by simp_all
    show ?case
      by (simp add: Cons.IH [OF r] 5 [OF x]) blast
  qed
  from this [of args deps] show ?case by simp
qed (auto simp: set_setAdd set_fold_setAdd split: option.splits)

lemma evaluateNode_cong_references:
  "(\<And>key. key \<in> references node \<Longrightarrow> g key = g' key) \<Longrightarrow>
   evaluateNode N node g = evaluateNode N node g'"
proof (induction node)
  case (Number x)
  show ?case by simp
next
  case (Cell x)
  then show ?case by (simp split: option.splits)
next
  case (Binary op l r)
  then have "evaluateNode N l g = evaluateNode N l g'" "evaluateNode N r g = evaluateNode N r g'"
    by simp_all
  then show ?case by simp
next
  case (Unary op x)
  then have "evaluateNode N x g = evaluateNode N x g'" by simp
  then show ?case by simp
next
  case (Function name args)
  have eq: "map (\<lambda>arg. asList (evaluateNode N arg g)) args =
        map (\<lambda>arg. asList (evaluateNode N arg g')) args"
  proof (rule map_cong [OF refl])
    fix arg assume a: "arg \<in> set args"
    have "evaluateNode N arg g = evaluateNode N arg g'"
      by (rule Function.IH [OF a]) (use a Function.prems in auto)
    then show "asList (evaluateNode N arg g) = asList (evaluateNode N arg g')" by simp
  qed
  show ?case unfolding evaluateNode.simps eq by (rule refl)
next
  case (RangeNode s e)
  then show ?case by simp
qed



lemma formula_cell_iff:
  assumes d: "distinct (map fst cells)"
  shows "mapGet (formulas (parseCells N cells)) x = Some a \<longleftrightarrow>
         (\<exists>v. (x, v) \<in> set cells \<and> startsWithEq v \<and> parsedAst N v = Some a)"
proof -
  let ?st = "parseCells N cells"
  from parseCells_props [OF d, of N] have
    ks: "mapKeys (formulas ?st) = map fst (filter (isFormulaOk N) cells)" and
    fs: "\<And>k a. (k, a) \<in> set (formulas ?st) \<longleftrightarrow>
               (\<exists>v. (k, v) \<in> set cells \<and> startsWithEq v \<and> parsedAst N v = Some a)"
    unfolding parsedInv_def by blast+
  have dk: "distinct (map fst (formulas ?st))"
    using d unfolding ks [unfolded mapKeys_def] by (rule distinct_map_filter)
  have "mapGet (formulas ?st) x = Some a \<longleftrightarrow> (x, a) \<in> set (formulas ?st)"
    using dk by (simp add: mapGet_def)
  with fs show ?thesis by simp
qed





subsection \<open>C2: the value lookup of the evaluator\<close>





subsection \<open>C4: a formula that fails to parse\<close>

text \<open>
  \<open>reads\<close> lists the pairs \<open>(c, d)\<close> such that the dependency set recorded for the
  formula cell \<open>c\<close> contains the key \<open>d\<close>, whatever \<open>d\<close> holds.
\<close>

definition reads :: "'n Parsed \<Rightarrow> (CellKey \<times> CellKey) list" where
  "reads st = concat (map (\<lambda>(c, ds). map (Pair c) ds) (dependencies st))"

lemma filter_setAdd_same: "filter (\<lambda>x. x \<noteq> k) (setAdd errs k) = filter (\<lambda>x. x \<noteq> k) errs"
  by (simp add: setAdd_def)

lemma setAdd_filter_other:
  "key \<noteq> k \<Longrightarrow> setAdd (filter (\<lambda>x. x \<noteq> k) errs) key = filter (\<lambda>x. x \<noteq> k) (setAdd errs key)"
  by (simp add: setAdd_def)

lemma parseCells_remove_bad:
  "(\<And>v. (k, v) \<in> set cells \<Longrightarrow> startsWithEq v \<and> parsedAst N v = None) \<Longrightarrow>
   parseCells N (filter (\<lambda>kv. fst kv \<noteq> k) cells) =
     (parseCells N cells)\<lparr>formulaErrors := filter (\<lambda>x. x \<noteq> k) (formulaErrors (parseCells N cells))\<rparr>"
proof (induction cells rule: rev_induct)
  case Nil
  show ?case by (simp add: parseCells_def)
next
  case (snoc kv cells)
  obtain key v where kv: "kv = (key, v)" by (cases kv)
  from snoc.prems have "\<And>v. (k, v) \<in> set cells \<Longrightarrow> startsWithEq v \<and> parsedAst N v = None" by simp
  note IH = snoc.IH [OF this]
  show ?case
  proof (cases "key = k")
    case True
    with snoc.prems [of v] kv have bad: "startsWithEq v" "parsedAst N v = None" by simp_all
    from True kv have "filter (\<lambda>kv. fst kv \<noteq> k) (cells @ [kv]) = filter (\<lambda>kv. fst kv \<noteq> k) cells"
      by simp
    then show ?thesis
      using bad True kv by (simp add: IH parseCells_snoc parseCell_cases filter_setAdd_same)
  next
    case False
    with kv have "filter (\<lambda>kv. fst kv \<noteq> k) (cells @ [kv]) = filter (\<lambda>kv. fst kv \<noteq> k) cells @ [kv]"
      by simp
    then show ?thesis
      using False kv
      by (simp add: IH parseCells_snoc parseCell_cases setAdd_filter_other split: option.splits)
  qed
qed

lemma map_of_filter_other:
  "key \<noteq> k \<Longrightarrow> map_of (filter (\<lambda>kv. fst kv \<noteq> k) cells) key = map_of cells key"
  by (induction cells) auto

lemma reads_iff:
  "(c, d) \<in> set (reads st) \<longleftrightarrow> (\<exists>ds. (c, ds) \<in> set (dependencies st) \<and> d \<in> set ds)"
  by (auto simp: reads_def)

lemma formula_reads:
  assumes d: "distinct (map fst cells)"
    and a: "mapGet (formulas (parseCells N cells)) x = Some a" and r: "key \<in> references a"
  shows "(x, key) \<in> set (reads (parseCells N cells))"
proof -
  let ?st = "parseCells N cells"
  from parseCells_props [OF d, of N] have
    ds: "dependencies ?st = map (\<lambda>(k, a). (k, collectDependencies a [])) (formulas ?st)"
    unfolding parsedInv_def by blast
  from a have "(x, a) \<in> set (formulas ?st)" unfolding mapGet_def by (rule map_of_SomeD)
  then have "(x, collectDependencies a []) \<in> set (dependencies ?st)"
    unfolding ds by force
  moreover from r have "key \<in> set (collectDependencies a [])" by (simp add: set_collectDependencies)
  ultimately show ?thesis unfolding reads_iff by blast
qed

lemma bad_not_formula:
  assumes d: "distinct (map fst cells)" and kv: "(k, v) \<in> set cells"
    and p: "parsedAst N v = None"
  shows "mapGet (formulas (parseCells N cells)) k = None"
proof (cases "mapGet (formulas (parseCells N cells)) k")
  case None
  then show ?thesis .
next
  case (Some a)
  with formula_cell_iff [OF d, of N k a] obtain v' where
    v': "(k, v') \<in> set cells" "parsedAst N v' = Some a" by blast
  from eq_key_imp_eq_value [OF d kv v'(1)] v'(2) p show ?thesis by simp
qed

lemma evaluateAll_unrelated:
  assumes d: "distinct (map fst cells)" and kv: "(k, v) \<in> set cells"
    and f: "startsWithEq v" and p: "parsedAst N v = None"
  shows "(j, k) \<notin> (set (reads (parseCells N cells)))\<^sup>+ \<Longrightarrow>
         map_of (evaluateAll N (parseCells N (filter (\<lambda>kv. fst kv \<noteq> k) cells))
                   (filter (\<lambda>kv. fst kv \<noteq> k) cells) xs) j =
         map_of (evaluateAll N (parseCells N cells) cells xs) j"
proof (induction xs arbitrary: j rule: rev_induct)
  case Nil
  show ?case by (simp add: evaluateAll_def)
next
  case (snoc x xs)
  let ?st = "parseCells N cells"
  let ?rest = "filter (\<lambda>kv. fst kv \<noteq> k) cells"
  let ?st' = "parseCells N ?rest"
  let ?C = "evaluateAll N ?st cells xs"
  let ?C' = "evaluateAll N ?st' ?rest xs"
  have bad: "\<And>v'. (k, v') \<in> set cells \<Longrightarrow> startsWithEq v' \<and> parsedAst N v' = None"
    using eq_key_imp_eq_value [OF d kv] f p by blast
  note rb = parseCells_remove_bad [of k cells N, OF bad]
  have fs: "formulas ?st' = formulas ?st" and di: "display ?st' = display ?st"
    and fe: "formulaErrors ?st' = filter (\<lambda>x. x \<noteq> k) (formulaErrors ?st)"
    by (simp_all add: rb)
  note nk = bad_not_formula [OF d kv p]
  show ?case
  proof (cases "j = x")
    case False
    then show ?thesis using snoc.IH [OF snoc.prems] by (simp add: evaluateAll_snoc map_of_mapSet)
  next
    case True
    have "stepValue N ?st' ?rest ?C' x = stepValue N ?st cells ?C x"
    proof (cases "mapGet (formulas ?st) x")
      case None
      then show ?thesis by (simp add: stepValue_def fs)
    next
      case (Some a)
      with nk have xk: "x \<noteq> k" by auto
      have "evaluateNode N a (getCellValue ?C' (display ?st) ?rest) =
            evaluateNode N a (getCellValue ?C (display ?st) cells)"
      proof (rule evaluateNode_cong_references)
        fix key assume r: "key \<in> references a"
        from formula_reads [OF d Some r] have e: "(x, key) \<in> set (reads ?st)" .
        have "key \<noteq> k"
        proof
          assume "key = k"
          with e have "(x, k) \<in> (set (reads ?st))\<^sup>+" by blast
          with snoc.prems True show False by simp
        qed
        moreover have "(key, k) \<notin> (set (reads ?st))\<^sup>+"
        proof
          assume "(key, k) \<in> (set (reads ?st))\<^sup>+"
          with e have "(x, k) \<in> (set (reads ?st))\<^sup>+" by (rule trancl_into_trancl2)
          with snoc.prems True show False by simp
        qed
        ultimately have "map_of ?rest key = map_of cells key" and "map_of ?C' key = map_of ?C key"
          using snoc.IH [of key] by (simp_all add: map_of_filter_other)
        then show "getCellValue ?C' (display ?st) ?rest key = getCellValue ?C (display ?st) cells key"
          unfolding getCellValue_def mapGet_def by (simp cong: option.case_cong)
      qed
      with Some xk show ?thesis by (simp add: stepValue_def fs di fe)
    qed
    with True show ?thesis by (simp add: evaluateAll_snoc map_of_mapSet)
  qed
qed

lemma cellDisplay_unrelated:
  assumes d: "distinct (map fst cells)" and kv: "(k, v) \<in> set cells"
    and f: "startsWithEq v" and p: "parsedAst N v = None"
    and jt: "(j, t) \<in> set cells" and u: "(j, k) \<notin> (set (reads (parseCells N cells)))\<^sup>+"
  shows "cellDisplay N (filter (\<lambda>kv. fst kv \<noteq> k) cells) j t = cellDisplay N cells j t"
proof -
  let ?st = "parseCells N cells"
  let ?rest = "filter (\<lambda>kv. fst kv \<noteq> k) cells"
  let ?st' = "parseCells N ?rest"
  have bad: "\<And>v'. (k, v') \<in> set cells \<Longrightarrow> startsWithEq v' \<and> parsedAst N v' = None"
    using eq_key_imp_eq_value [OF d kv] f p by blast
  note rb = parseCells_remove_bad [of k cells N, OF bad]
  have di: "display ?st' = display ?st" by (simp add: rb)
  have so: "scheduleOrder ?st' = scheduleOrder ?st" by (simp add: rb scheduleOrder_def)
  show ?thesis
  proof (cases "startsWithEq t \<and> parsedAst N t \<noteq> None")
    case False
    then show ?thesis by (auto simp: cellDisplay_def Let_def)
  next
    case True
    then obtain a where a: "startsWithEq t" "parsedAst N t = Some a" by auto
    from formula_cell_iff [OF d, of N j a] jt a have fa: "mapGet (formulas ?st) j = Some a" by blast
    have "evaluateNode N a
            (getCellValue (evaluateAll N ?st' ?rest (takeWhile (\<lambda>x. x \<noteq> j) (scheduleOrder ?st)))
               (display ?st) ?rest) =
          evaluateNode N a
            (getCellValue (evaluateAll N ?st cells (takeWhile (\<lambda>x. x \<noteq> j) (scheduleOrder ?st)))
               (display ?st) cells)"
    proof (rule evaluateNode_cong_references)
      fix key assume r: "key \<in> references a"
      from formula_reads [OF d fa r] have e: "(j, key) \<in> set (reads ?st)" .
      have nk: "key \<noteq> k"
      proof
        assume "key = k"
        with e have "(j, k) \<in> (set (reads ?st))\<^sup>+" by blast
        with u show False by simp
      qed
      have "(key, k) \<notin> (set (reads ?st))\<^sup>+"
      proof
        assume "(key, k) \<in> (set (reads ?st))\<^sup>+"
        with e have "(j, k) \<in> (set (reads ?st))\<^sup>+" by (rule trancl_into_trancl2)
        with u show False by simp
      qed
      from evaluateAll_unrelated [OF d kv f p this] nk
      have "map_of ?rest key = map_of cells key"
        and "\<And>xs. map_of (evaluateAll N ?st' ?rest xs) key = map_of (evaluateAll N ?st cells xs) key"
        by (simp_all add: map_of_filter_other)
      then show "getCellValue (evaluateAll N ?st' ?rest (takeWhile (\<lambda>x. x \<noteq> j) (scheduleOrder ?st)))
              (display ?st) ?rest key =
            getCellValue (evaluateAll N ?st cells (takeWhile (\<lambda>x. x \<noteq> j) (scheduleOrder ?st)))
              (display ?st) cells key"
        unfolding getCellValue_def mapGet_def by (simp cong: option.case_cong)
    qed
    with a show ?thesis by (simp add: cellDisplay_def Let_def di so)
  qed
qed

text \<open>
  Claim C4, as amended. For every Cell Store and every formula cell \<open>k\<close> in it whose
  text fails to parse: the cell displays \<open>#ERROR\<close>; it is recorded in \<open>formulaErrors\<close>
  and in neither \<open>formulas\<close> nor \<open>dependencies\<close>, is no node of the graph and no
  successor of any node, so that no edge touches it; it is never scheduled and never
  evaluated. The parsed formulas, the dependency sets, the graph and the schedule are
  those of the store without the cell, so that it blocks no other cell; and every other
  cell that does not read the failed cell, directly or through other cells, displays
  what it displays in the store without it. (A cell that does read the failed cell is
  scheduled all the same, but the lookup hands it the raw text of the failed cell, see
  claim C2, where it would get absence without the cell.)
\<close>

theorem parse_failure_isolated:
  assumes d: "distinct (map fst cells)" and kv: "(k, v) \<in> set cells"
    and f: "startsWithEq v" and p: "parsedAst N v = None"
  shows "let st = parseCells N cells;
             g = addEdges (formulas st) (dependencies st) (initGraph (mapKeys (formulas st)));
             rest = filter (\<lambda>kv. fst kv \<noteq> k) cells;
             st' = parseCells N rest
         in mapGet (calculateDisplayCells N cells) k = Some ''#ERROR'' \<and>
            k \<in> set (formulaErrors st) \<and>
            k \<notin> set (mapKeys (formulas st)) \<and> k \<notin> set (mapKeys (dependencies st)) \<and>
            k \<notin> set (mapKeys (adjacency g)) \<and> (\<forall>x. k \<notin> set (successors (adjacency g) x)) \<and>
            (\<forall>x. (k, x) \<notin> edgeRel (adjacency g) \<and> (x, k) \<notin> edgeRel (adjacency g)) \<and>
            k \<notin> set (scheduleOrder st) \<and>
            k \<notin> set (mapKeys (evaluateAll N st cells (scheduleOrder st))) \<and>
            formulas st' = formulas st \<and> dependencies st' = dependencies st \<and>
            display st' = display st \<and>
            addEdges (formulas st') (dependencies st') (initGraph (mapKeys (formulas st'))) = g \<and>
            scheduleOrder st' = scheduleOrder st \<and>
            (\<forall>j. j \<noteq> k \<and> (j, k) \<notin> (set (reads st))\<^sup>+ \<longrightarrow>
                 mapGet (calculateDisplayCells N cells) j = mapGet (calculateDisplayCells N rest) j)"
proof -
  let ?st = "parseCells N cells"
  let ?rest = "filter (\<lambda>kv. fst kv \<noteq> k) cells"
  let ?st' = "parseCells N ?rest"
  define g where
    "g = addEdges (formulas ?st) (dependencies ?st) (initGraph (mapKeys (formulas ?st)))"
  note sf = schedule_final [OF d refl g_def]
  from parseCells_props [OF d, of N] have
    fe: "formulaErrors ?st = map fst (filter (isFormulaBad N) cells)" and
    ds: "dependencies ?st = map (\<lambda>(k, a). (k, collectDependencies a [])) (formulas ?st)"
    unfolding parsedInv_def by blast+
  have bad: "\<And>v'. (k, v') \<in> set cells \<Longrightarrow> startsWithEq v' \<and> parsedAst N v' = None"
    using eq_key_imp_eq_value [OF d kv] f p by blast
  note rb = parseCells_remove_bad [of k cells N, OF bad]
  have m: "map_of cells k = Some v" using d kv by simp
  have 1: "mapGet (calculateDisplayCells N cells) k = Some ''#ERROR''"
    using f p by (simp add: mapGet_def display_lookup [OF d] m cellDisplay_def Let_def)
  have 2: "k \<in> set (formulaErrors ?st)"
    unfolding fe using kv f p by (force simp: isFormulaBad_def)
  from bad_not_formula [OF d kv p] have 3: "k \<notin> set (mapKeys (formulas ?st))"
    by (simp add: mapGet_None_iff)
  have same: "mapKeys (dependencies ?st) = mapKeys (formulas ?st)"
    by (simp add: ds mapKeys_def comp_def case_prod_beta)
  from 3 same have 4: "k \<notin> set (mapKeys (dependencies ?st))" by simp
  from 3 sf(3) have 5: "k \<notin> set (mapKeys (adjacency g))" by simp
  from sf(2) 5 have 6: "\<forall>x. k \<notin> set (successors (adjacency g) x)"
    unfolding wellFormedAdj_def by blast
  from 5 6 have 7: "\<forall>x. (k, x) \<notin> edgeRel (adjacency g) \<and> (x, k) \<notin> edgeRel (adjacency g)"
    by (simp add: edgeRel_def)
  from sf(1) 5 have 8: "k \<notin> set (scheduleOrder ?st)" unfolding kahnFinal_def by blast
  from 8 have 9: "k \<notin> set (mapKeys (evaluateAll N ?st cells (scheduleOrder ?st)))"
    by (simp add: evaluateAll_keys)
  have 10: "formulas ?st' = formulas ?st" "dependencies ?st' = dependencies ?st"
    "display ?st' = display ?st"
    by (simp_all add: rb)
  have 11: "addEdges (formulas ?st') (dependencies ?st') (initGraph (mapKeys (formulas ?st'))) = g"
    by (simp add: 10 g_def)
  have 12: "scheduleOrder ?st' = scheduleOrder ?st" by (simp add: rb scheduleOrder_def)
  have dr: "distinct (map fst ?rest)" using d by (rule distinct_map_filter)
  have 13: "\<forall>j. j \<noteq> k \<and> (j, k) \<notin> (set (reads ?st))\<^sup>+ \<longrightarrow>
              mapGet (calculateDisplayCells N cells) j = mapGet (calculateDisplayCells N ?rest) j"
  proof (intro allI impI)
    fix j assume j: "j \<noteq> k \<and> (j, k) \<notin> (set (reads ?st))\<^sup>+"
    then have mo: "map_of ?rest j = map_of cells j" by (simp add: map_of_filter_other)
    show "mapGet (calculateDisplayCells N cells) j = mapGet (calculateDisplayCells N ?rest) j"
    proof (cases "map_of cells j")
      case None
      with mo show ?thesis by (simp add: mapGet_def display_lookup [OF d] display_lookup [OF dr])
    next
      case (Some t)
      then have "(j, t) \<in> set cells" by (rule map_of_SomeD)
      from cellDisplay_unrelated [OF d kv f p this] j Some mo show ?thesis
        by (simp add: mapGet_def display_lookup [OF d] display_lookup [OF dr])
    qed
  qed
  from 1 2 3 4 5 6 7 8 9 10 11 12 13 show ?thesis
    unfolding Let_def g_def [symmetric] by blast
qed

theorem parse_failure_isolated_witness:
  "distinct (map fst [(getCellKey (Finite 0) (Finite 0), ''=1+''), (getCellKey (Finite 0) (Finite 1), ''5''), (getCellKey (Finite 0) (Finite 2), ''=B1*2''), (getCellKey (Finite 0) (Finite 3), ''=A1'')]) \<and>
   (getCellKey (Finite 0) (Finite 0), ''=1+'') \<in> set [(getCellKey (Finite 0) (Finite 0), ''=1+''), (getCellKey (Finite 0) (Finite 1), ''5''), (getCellKey (Finite 0) (Finite 2), ''=B1*2''), (getCellKey (Finite 0) (Finite 3), ''=A1'')] \<and>
   startsWithEq ''=1+'' \<and> parsedAst doubleOps ''=1+'' = None \<and>
   mapGet (calculateDisplayCells doubleOps [(getCellKey (Finite 0) (Finite 0), ''=1+''), (getCellKey (Finite 0) (Finite 1), ''5''), (getCellKey (Finite 0) (Finite 2), ''=B1*2''), (getCellKey (Finite 0) (Finite 3), ''=A1'')]) (getCellKey (Finite 0) (Finite 0)) = Some ''#ERROR'' \<and>
   getCellKey (Finite 0) (Finite 0) \<notin> set (scheduleOrder (parseCells doubleOps [(getCellKey (Finite 0) (Finite 0), ''=1+''), (getCellKey (Finite 0) (Finite 1), ''5''), (getCellKey (Finite 0) (Finite 2), ''=B1*2''), (getCellKey (Finite 0) (Finite 3), ''=A1'')])) \<and>
   scheduleOrder (parseCells doubleOps [(getCellKey (Finite 0) (Finite 1), ''5''), (getCellKey (Finite 0) (Finite 2), ''=B1*2''), (getCellKey (Finite 0) (Finite 3), ''=A1'')]) = scheduleOrder (parseCells doubleOps [(getCellKey (Finite 0) (Finite 0), ''=1+''), (getCellKey (Finite 0) (Finite 1), ''5''), (getCellKey (Finite 0) (Finite 2), ''=B1*2''), (getCellKey (Finite 0) (Finite 3), ''=A1'')]) \<and>
   scheduleOrder (parseCells doubleOps [(getCellKey (Finite 0) (Finite 0), ''=1+''), (getCellKey (Finite 0) (Finite 1), ''5''), (getCellKey (Finite 0) (Finite 2), ''=B1*2''), (getCellKey (Finite 0) (Finite 3), ''=A1'')]) = [getCellKey (Finite 0) (Finite 2), getCellKey (Finite 0) (Finite 3)] \<and>
   (getCellKey (Finite 0) (Finite 2), getCellKey (Finite 0) (Finite 0)) \<notin> (set (reads (parseCells doubleOps [(getCellKey (Finite 0) (Finite 0), ''=1+''), (getCellKey (Finite 0) (Finite 1), ''5''), (getCellKey (Finite 0) (Finite 2), ''=B1*2''), (getCellKey (Finite 0) (Finite 3), ''=A1'')])))\<^sup>+ \<and>
   mapGet (calculateDisplayCells doubleOps [(getCellKey (Finite 0) (Finite 0), ''=1+''), (getCellKey (Finite 0) (Finite 1), ''5''), (getCellKey (Finite 0) (Finite 2), ''=B1*2''), (getCellKey (Finite 0) (Finite 3), ''=A1'')]) (getCellKey (Finite 0) (Finite 2)) =
     mapGet (calculateDisplayCells doubleOps [(getCellKey (Finite 0) (Finite 1), ''5''), (getCellKey (Finite 0) (Finite 2), ''=B1*2''), (getCellKey (Finite 0) (Finite 3), ''=A1'')]) (getCellKey (Finite 0) (Finite 2)) \<and>
   mapGet (calculateDisplayCells doubleOps [(getCellKey (Finite 0) (Finite 1), ''5''), (getCellKey (Finite 0) (Finite 2), ''=B1*2''), (getCellKey (Finite 0) (Finite 3), ''=A1'')]) (getCellKey (Finite 0) (Finite 2)) = Some ''10''"
proof -
  let ?cells = "[(getCellKey (Finite 0) (Finite 0), ''=1+''), (getCellKey (Finite 0) (Finite 1), ''5''), (getCellKey (Finite 0) (Finite 2), ''=B1*2''), (getCellKey (Finite 0) (Finite 3), ''=A1'')]"
  let ?rest = "[(getCellKey (Finite 0) (Finite 1), ''5''), (getCellKey (Finite 0) (Finite 2), ''=B1*2''), (getCellKey (Finite 0) (Finite 3), ''=A1'')]"
  let ?st = "parseCells doubleOps ?cells"
  have a: "distinct (map fst ?cells)" by (simp add: getCellKey_def)
  have b: "(getCellKey (Finite 0) (Finite 0), ''=1+'') \<in> set ?cells" by simp
  have c: "startsWithEq ''=1+''" by (simp add: startsWithEq_def)
  have e: "parsedAst doubleOps ''=1+'' = None" by code_simp
  have fr: "filter (\<lambda>kv. fst kv \<noteq> getCellKey (Finite 0) (Finite 0)) ?cells = ?rest" by (simp add: getCellKey_def)
  have ne: "getCellKey (Finite 0) (Finite 2) \<noteq> getCellKey (Finite 0) (Finite 0)" by (simp add: getCellKey_def)
  have u: "(getCellKey (Finite 0) (Finite 2), getCellKey (Finite 0) (Finite 0)) \<notin> (set (reads ?st))\<^sup>+" by code_simp
  have o: "scheduleOrder ?st = [getCellKey (Finite 0) (Finite 2), getCellKey (Finite 0) (Finite 3)]" by code_simp
  have v: "mapGet (calculateDisplayCells doubleOps ?rest) (getCellKey (Finite 0) (Finite 2)) = Some ''10''" by code_simp
  note t = parse_failure_isolated [OF a b c e, unfolded Let_def fr]
  from t have 1: "mapGet (calculateDisplayCells doubleOps ?cells) (getCellKey (Finite 0) (Finite 0)) = Some ''#ERROR''"
    by blast
  from t have 2: "getCellKey (Finite 0) (Finite 0) \<notin> set (scheduleOrder ?st)" by blast
  from t have 3: "scheduleOrder (parseCells doubleOps ?rest) = scheduleOrder ?st" by blast
  from t ne u have 4: "mapGet (calculateDisplayCells doubleOps ?cells) (getCellKey (Finite 0) (Finite 2)) =
                       mapGet (calculateDisplayCells doubleOps ?rest) (getCellKey (Finite 0) (Finite 2))" by blast
  from a b c e 1 2 3 o u 4 v show ?thesis by (intro conjI)
qed

text \<open>
  The claim as it stands fails for the cells that read the failed cell: with \<open>A1\<close>
  holding \<open>=1+\<close>, the cell \<open>D1\<close> holding \<open>=A1\<close> displays the raw text of \<open>A1\<close>; in the
  store without \<open>A1\<close> it displays the empty string.
\<close>

theorem failed_cell_reader_counterexample:
  "parsedAst doubleOps ''=1+'' = None \<and>
   mapGet (calculateDisplayCells doubleOps
             [(getCellKey (Finite 0) (Finite 0), ''=1+''), (getCellKey (Finite 0) (Finite 1), ''5''), (getCellKey (Finite 0) (Finite 3), ''=A1'')])
     (getCellKey (Finite 0) (Finite 3)) = Some ''=1+'' \<and>
   mapGet (calculateDisplayCells doubleOps [(getCellKey (Finite 0) (Finite 1), ''5''), (getCellKey (Finite 0) (Finite 3), ''=A1'')])
     (getCellKey (Finite 0) (Finite 3)) = Some []"
  by code_simp

end
